theory Spec2Isabelle
  imports Main "HOL-Library.Sublist"
begin

section \<open>Python values used by \<open>mj_rag/algorithm.py\<close>\<close>

text \<open>
  Strings are \<^typ>\<open>string\<close> (lists of 8-bit characters, the UTF-8 bytes of a Python
  \<open>str\<close>). The two characters the regular expressions of the module look for, the space
  (0x20) and the newline (0x0A), are single bytes that occur in UTF-8 only as themselves.
  Exceptions are values of \<open>py_error\<close>; a function that can raise returns
  \<open>py_error + 'a\<close> with \<open>Inl\<close> for the exception.
\<close>

datatype py_error =
    KeyError string
  | IndexError
  | TypeError
  | ValueError string
  | JSONDecodeError string
  | ServiceError string

abbreviation (input) NL :: char where
  "NL \<equiv> CHR 0x0A"

abbreviation (input) SP :: char where
  "SP \<equiv> CHR 0x20"

definition ascii_uppercase :: string where
  "ascii_uppercase = ''ABCDEFGHIJKLMNOPQRSTUVWXYZ''"

definition ascii_lowercase :: string where
  "ascii_lowercase = ''abcdefghijklmnopqrstuvwxyz''"

text \<open>\<open>str.lower()\<close> and \<open>str.upper()\<close> on the ASCII letters; other bytes are kept.\<close>

definition lower_char :: "char \<Rightarrow> char" where
  "lower_char c =
     (case map_of (zip ascii_uppercase ascii_lowercase) c of Some d \<Rightarrow> d | None \<Rightarrow> c)"

definition upper_char :: "char \<Rightarrow> char" where
  "upper_char c =
     (case map_of (zip ascii_lowercase ascii_uppercase) c of Some d \<Rightarrow> d | None \<Rightarrow> c)"

definition str_lower :: "string \<Rightarrow> string" where
  "str_lower s = map lower_char s"

definition str_upper :: "string \<Rightarrow> string" where
  "str_upper s = map upper_char s"

text \<open>\<open>sub in s\<close> on strings: \<open>sub\<close> occurs in \<open>s\<close> as a contiguous block.\<close>

fun str_in :: "string \<Rightarrow> string \<Rightarrow> bool" where
  "str_in sub [] = (sub = [])"
| "str_in sub (c # cs) = (prefix sub (c # cs) \<or> str_in sub cs)"

text \<open>\<open>sep.join(parts)\<close>.\<close>

fun str_join :: "string \<Rightarrow> string list \<Rightarrow> string" where
  "str_join sep [] = []"
| "str_join sep [x] = x"
| "str_join sep (x # y # ys) = x @ sep @ str_join sep (y # ys)"

section \<open>The completion service\<close>

text \<open>
  \<open>LLMServiceInterface.complete_messages(messages)\<close> takes a list of
  \<open>{'role': r, 'content': c}\<close> turns and returns a text. The service is an external
  collaborator that may answer differently on every call, so its reply is a function of
  the calls made before (the log, oldest first) and of the messages of this call. The log
  is the only state: \<open>complete_messages\<close> returns the reply and the log extended by this
  call, which is what lets a theorem count calls and read the history sent on each.
\<close>

type_synonym message = "string \<times> string"

type_synonym llm_log = "message list list"

type_synonym llm_service = "llm_log \<Rightarrow> message list \<Rightarrow> string"

definition complete_messages :: "llm_service \<Rightarrow> llm_log \<Rightarrow> message list \<Rightarrow> string \<times> llm_log" where
  "complete_messages llm log messages = (llm log messages, log @ [messages])"

section \<open>Self-verification of an answer: \<open>check_if_answer_is_correct\<close>\<close>

definition check_msg_content :: "string \<Rightarrow> string \<Rightarrow> string \<Rightarrow> string" where
  \<open>check_msg_content work_title question answer =
     ''We are working on a document which the document is turning around '' @ [CHR 0x27]
       @ work_title @ [CHR 0x27, NL, NL]
     @ ''The user asked: '' @ question @ [NL, NL]
     @ ''The assistant fetched the answer in the document and replied with: '' @ answer
       @ [NL, NL]
     @ ''Is the assitant'' @ [CHR 0x27] @ ''s answer looks like a good answer? Reply by YES or NO''\<close>

definition check_if_answer_is_correct ::
  "llm_service \<Rightarrow> llm_log \<Rightarrow> string \<Rightarrow> string \<Rightarrow> string \<Rightarrow> bool \<times> llm_log" where
  "check_if_answer_is_correct llm log work_title question answer =
     (let messages = [(''user'', check_msg_content work_title question answer)];
          (to_parse, log') = complete_messages llm log messages
      in (if str_in ''yes'' (str_lower to_parse) then True else False, log'))"

section \<open>The document hash: \<open>get_doc_hash\<close>\<close>

text \<open>
  \<open>rgx_space = re.compile(r" ")\<close>: \<open>rgx_space.sub('', content)\<close> deletes every space
  character, and no other character.
\<close>

definition rgx_space_sub :: "string \<Rightarrow> string" where
  "rgx_space_sub content = filter (\<lambda>c. c \<noteq> SP) content"

text \<open>
  \<open>rgx_2_lines = re.compile(r"\n{2,}")\<close>: \<open>rgx_2_lines.sub('\n', content)\<close> scans from
  the left; a newline starts a greedy match of the whole run of newlines, which is
  replaced by one newline when the run has two or more and is left as it is (one
  newline) otherwise.
\<close>

function rgx_2_lines_sub :: "string \<Rightarrow> string" where
  "rgx_2_lines_sub [] = []"
| "rgx_2_lines_sub (c # cs) =
     (if c = NL then NL # rgx_2_lines_sub (dropWhile (\<lambda>d. d = NL) cs)
      else c # rgx_2_lines_sub cs)"
  by pat_completeness auto
termination
  by (relation "measure length") (auto simp: less_Suc_eq_le length_dropWhile_le)

text \<open>
  \<open>hashlib.sha256(content.encode()).hexdigest()\<close> is a library function; the model
  takes it as the parameter \<open>sha256_hexdigest\<close>.
\<close>

definition get_doc_hash :: "(string \<Rightarrow> string) \<Rightarrow> string \<Rightarrow> string" where
  "get_doc_hash sha256_hexdigest content =
     (let content1 = rgx_space_sub content;
          content2 = rgx_2_lines_sub content1
      in sha256_hexdigest content2)"

section \<open>The sentence-window chunker: \<open>split_content_by_sentences\<close>\<close>


definition slice_index :: "nat \<Rightarrow> int \<Rightarrow> nat" where
  "slice_index n k = (if k < 0 then nat (max 0 (int n + k)) else min n (nat k))"

definition py_slice :: "'a list \<Rightarrow> int \<Rightarrow> int \<Rightarrow> 'a list" where
  "py_slice xs a b =
     (let a' = slice_index (length xs) a; b' = slice_index (length xs) b
      in take (b' - a') (drop a' xs))"






text \<open>
  \<open>str.strip()\<close>: the whitespace of ASCII (space, tab, newline, vertical tab, form feed,
  carriage return and the separators 0x1C to 0x1F) is removed at both ends.
\<close>

definition is_space :: "char \<Rightarrow> bool" where
  "is_space c = (c \<in> set [SP, CHR 0x09, NL, CHR 0x0B, CHR 0x0C, CHR 0x0D,
                           CHR 0x1C, CHR 0x1D, CHR 0x1E, CHR 0x1F])"

definition str_strip :: "string \<Rightarrow> string" where
  "str_strip s = rev (dropWhile is_space (rev (dropWhile is_space s)))"






definition resolve_hash :: "(string \<Rightarrow> string) \<Rightarrow> string \<Rightarrow> string option \<Rightarrow> string" where
  "resolve_hash sha256_hexdigest content doc_hash =
     (case doc_hash of
        None \<Rightarrow> get_doc_hash sha256_hexdigest content
      | Some h \<Rightarrow> if h = [] then get_doc_hash sha256_hexdigest content else h)"



section \<open>The embedding batcher: \<open>get_embeddings_for_sentences\<close>\<close>

text \<open>
  \<open>embedding_service.encode_documents\<close> is an external collaborator: it returns one
  vector per document or raises. \<open>len(encoding.encode(s))\<close>, the token count of the
  tokenizer, is the parameter \<open>count_tokens\<close>. The loop keeps the vectors so far, the
  buffer \<open>tmp_sentences\<close> and its token count; the model also records, in \<open>calls\<close>, the
  argument of every call of \<open>encode_documents\<close>, oldest first. An exception of the
  service is raised again by the handler and ends the function.
\<close>

type_synonym 'v encoder = "string list \<Rightarrow> py_error + 'v list"

fun embed_loop ::
  "'v encoder \<Rightarrow> (string \<Rightarrow> nat) \<Rightarrow> string list \<Rightarrow> 'v list \<Rightarrow> string list \<Rightarrow> nat
     \<Rightarrow> string list list \<Rightarrow> (py_error + ('v list \<times> string list \<times> nat)) \<times> string list list" where
  "embed_loop encode_documents count_tokens [] vectors tmp_sentences tmp_tokens_count calls =
     (Inr (vectors, tmp_sentences, tmp_tokens_count), calls)"
| "embed_loop encode_documents count_tokens (sentences # rest) vectors tmp_sentences
       tmp_tokens_count calls =
     (let tokens_count = count_tokens sentences
      in if tmp_tokens_count + tokens_count > 250000
         then (case encode_documents tmp_sentences of
                 Inl e \<Rightarrow> (Inl e, calls @ [tmp_sentences])
               | Inr vs \<Rightarrow>
                   embed_loop encode_documents count_tokens rest (vectors @ vs) [sentences]
                     tokens_count (calls @ [tmp_sentences]))
         else embed_loop encode_documents count_tokens rest vectors
                (tmp_sentences @ [sentences]) (tmp_tokens_count + tokens_count) calls)"

text \<open>
  The embedding cache is a directory with one array file per document hash.
  \<open>get_cached_content_embeddings(doc_hash=doc_hash)\<close> is called without a content, so a
  falsy \<open>doc_hash\<close> makes \<open>get_doc_hash(None)\<close> raise a \<open>TypeError\<close>.
\<close>

definition get_embeddings_for_sentences ::
  "'v encoder \<Rightarrow> (string \<Rightarrow> nat) \<Rightarrow> (string \<rightharpoonup> 'v list) \<Rightarrow> string \<Rightarrow> string list
     \<Rightarrow> (py_error + 'v list) \<times> (string \<rightharpoonup> 'v list) \<times> string list list" where
  "get_embeddings_for_sentences encode_documents count_tokens cache doc_hash sentences_set =
     (if doc_hash = [] then (Inl TypeError, cache, [])
      else case cache doc_hash of
        Some res \<Rightarrow> (Inr res, cache, [])
      | None \<Rightarrow>
          (case embed_loop encode_documents count_tokens sentences_set [] [] 0 [] of
             (Inl e, calls) \<Rightarrow> (Inl e, cache, calls)
           | (Inr (vectors, tmp_sentences, tmp_tokens_count), calls) \<Rightarrow>
               if tmp_sentences \<noteq> []
               then (case encode_documents tmp_sentences of
                       Inl e \<Rightarrow> (Inl e, cache, calls @ [tmp_sentences])
                     | Inr vs \<Rightarrow>
                         (Inr (vectors @ vs), cache(doc_hash \<mapsto> vectors @ vs),
                          calls @ [tmp_sentences]))
               else (Inr vectors, cache(doc_hash \<mapsto> vectors), calls)))"

text \<open>
  What the claims say of the batches: the tokens of a batch, and that a list of batches is
  greedy (no batch could have taken the first sentence of the next one).
\<close>

definition batch_tokens :: "(string \<Rightarrow> nat) \<Rightarrow> string list \<Rightarrow> nat" where
  "batch_tokens count_tokens batch = sum_list (map count_tokens batch)"

fun greedy_batches :: "(string \<Rightarrow> nat) \<Rightarrow> string list list \<Rightarrow> bool" where
  "greedy_batches count_tokens (b # b' # bs) =
     (batch_tokens count_tokens b + count_tokens (hd b') > 250000
      \<and> greedy_batches count_tokens (b' # bs))"
| "greedy_batches count_tokens _ = True"

definition encoded :: "'v encoder \<Rightarrow> string list \<Rightarrow> 'v list" where
  "encoded encode_documents batch = (case encode_documents batch of Inr vs \<Rightarrow> vs | Inl e \<Rightarrow> [])"

text \<open>Every batch is non-empty and within the cap.\<close>

definition batches_ok :: "(string \<Rightarrow> nat) \<Rightarrow> string list list \<Rightarrow> bool" where
  "batches_ok tok bs = (\<forall>b\<in>set bs. b \<noteq> [] \<and> batch_tokens tok b \<le> 250000)"

section \<open>Section trees: \<open>enrich_sections\<close> and \<open>_linearize_sections\<close>\<close>

text \<open>
  A section is a Python dictionary. The completion service is asked for the keys
  \<open>header\<close> and \<open>content\<close> (strings) and, optionally, \<open>subsections\<close> (a list of
  sections); enrichment adds \<open>parents\<close> and \<open>level\<close>, persistence adds \<open>sql_doc_id\<close>. A
  key that is absent is \<open>None\<close> (the selectors are named after \<open>section.get('k')\<close>);
  reading an absent key with \<open>section['k']\<close> raises \<open>KeyError\<close>.
\<close>

datatype section_node = Section
  (get_header: "string option")
  (get_content: "string option")
  (get_subsections: "section_node list option")
  (get_parents: "string list option")
  (get_level: "nat option")
  (get_sql_doc_id: "string option")

text \<open>\<open>section.get('subsections', [])\<close>, and the content of a section that has one.\<close>

definition subsections_of :: "section_node \<Rightarrow> section_node list" where
  "subsections_of s = (case get_subsections s of Some subs \<Rightarrow> subs | None \<Rightarrow> [])"

definition content_of :: "section_node \<Rightarrow> string" where
  "content_of s = (case get_content s of Some c \<Rightarrow> c | None \<Rightarrow> [])"

text \<open>\<open>f"{'#'*level} {header}\n\n{section['content']}"\<close>.\<close>

definition heading_content :: "nat \<Rightarrow> string \<Rightarrow> string \<Rightarrow> string" where
  "heading_content level header raw = replicate level (CHR ''#'') @ [SP] @ header @ [NL, NL] @ raw"

text \<open>
  The loop \<open>for subsection in section['subsections']: content += f"\n\n{subsection['content']}"\<close>
  over the sections that the recursive call has returned (each has its content set).
\<close>

definition append_subsection_contents :: "string \<Rightarrow> section_node list \<Rightarrow> string" where
  "append_subsection_contents content0 subs =
     foldl (\<lambda>content subsection. content @ [NL, NL] @ content_of subsection) content0 subs"

text \<open>
  \<open>enrich_sections(sections, parents, level)\<close>; \<open>enrich_section\<close> is the body of its loop
  for one section. The call without \<open>parents\<close> starts with the empty chain at level 1.
  The recursion is entered only for a \<open>subsections\<close> value that is present and not empty.
\<close>

fun enrich_section :: "section_node \<Rightarrow> string list \<Rightarrow> nat \<Rightarrow> py_error + section_node"
  and enrich_sections :: "section_node list \<Rightarrow> string list \<Rightarrow> nat \<Rightarrow> py_error + section_node list" where
  "enrich_section (Section h c subs ps lv sid) parents level =
     (case h of
        None \<Rightarrow> Inl (KeyError ''header'')
      | Some header \<Rightarrow>
         (case c of
            None \<Rightarrow> Inl (KeyError ''content'')
          | Some raw \<Rightarrow>
             (case subs of
                Some (x # xs) \<Rightarrow>
                  (case enrich_sections (x # xs) (parents @ [header]) (level + 1) of
                     Inl e \<Rightarrow> Inl e
                   | Inr subs' \<Rightarrow>
                       Inr (Section h
                              (Some (append_subsection_contents
                                       (heading_content level header raw) subs'))
                              (Some subs') (Some parents) (Some level) sid))
              | _ \<Rightarrow>
                  Inr (Section h (Some (heading_content level header raw)) subs
                         (Some parents) (Some level) sid))))"
| "enrich_sections [] parents level = Inr []"
| "enrich_sections (s # ss) parents level =
     (case enrich_section s parents level of
        Inl e \<Rightarrow> Inl e
      | Inr s' \<Rightarrow>
         (case enrich_sections ss parents level of
            Inl e \<Rightarrow> Inl e
          | Inr ss' \<Rightarrow> Inr (s' # ss')))"

definition enrich_sections_top :: "section_node list \<Rightarrow> py_error + section_node list" where
  "enrich_sections_top sections = enrich_sections sections [] 1"

text \<open>The nodes of a tree and of a forest in document order (depth first, a node before
  its subsections).\<close>

fun nodes :: "section_node \<Rightarrow> section_node list"
  and nodes_list :: "section_node list \<Rightarrow> section_node list" where
  "nodes (Section h c subs ps lv sid) =
     Section h c subs ps lv sid # (case subs of Some l \<Rightarrow> nodes_list l | None \<Rightarrow> [])"
| "nodes_list [] = []"
| "nodes_list (s # ss) = nodes s @ nodes_list ss"

text \<open>
  \<open>_linearize_sections\<close>. A synthetic row is \<open>section.copy()\<close> with the key \<open>header\<close>
  replaced; the loop \<open>for i in range(len(parents) - 1, -1, -1)\<close> runs \<open>i\<close> from the last
  index of the chain down to 0, and \<open>parents[i:]\<close> is the chain from index \<open>i\<close> on.
\<close>

fun set_header :: "string \<Rightarrow> section_node \<Rightarrow> section_node" where
  "set_header new_header (Section h c subs ps lv sid) = Section (Some new_header) c subs ps lv sid"

definition hierarchized_rows :: "section_node \<Rightarrow> py_error + section_node list" where
  "hierarchized_rows s =
     (case get_parents s of
        None \<Rightarrow> Inr []
      | Some ps \<Rightarrow>
          if ps = [] then Inr []
          else (case get_header s of
                  None \<Rightarrow> Inl (KeyError ''header'')
                | Some h \<Rightarrow>
                    Inr (map (\<lambda>i. set_header (str_join '' - '' (drop i ps @ [h])) s)
                           (rev [0 ..< length ps]))))"

fun linearize_section :: "bool \<Rightarrow> section_node \<Rightarrow> py_error + section_node list"
  and linearize_sections :: "bool \<Rightarrow> section_node list \<Rightarrow> py_error + section_node list" where
  "linearize_section add_hierarchized_titles (Section h c subs ps lv sid) =
     (case (if add_hierarchized_titles then hierarchized_rows (Section h c subs ps lv sid)
            else Inr []) of
        Inl e \<Rightarrow> Inl e
      | Inr rows \<Rightarrow>
          (case (case subs of
                   Some l \<Rightarrow> linearize_sections add_hierarchized_titles l
                 | None \<Rightarrow> Inr []) of
             Inl e \<Rightarrow> Inl e
           | Inr below \<Rightarrow> Inr (Section h c subs ps lv sid # rows @ below)))"
| "linearize_sections add_hierarchized_titles [] = Inr []"
| "linearize_sections add_hierarchized_titles (s # ss) =
     (case linearize_section add_hierarchized_titles s of
        Inl e \<Rightarrow> Inl e
      | Inr rows \<Rightarrow>
          (case linearize_sections add_hierarchized_titles ss of
             Inl e \<Rightarrow> Inl e
           | Inr more \<Rightarrow> Inr (rows @ more)))"

text \<open>
  The rule of the specification for the synthetic headers, in its words: one for every
  proper non-empty suffix of the ancestor chain, longest suffix first, joined with the
  node's own header.
\<close>

definition spec_hierarchized_headers :: "string list \<Rightarrow> string \<Rightarrow> string list" where
  "spec_hierarchized_headers ps h =
     map (\<lambda>suffix. str_join '' - '' (suffix @ [h]))
       (rev (filter (\<lambda>suffix. suffix \<noteq> [] \<and> suffix \<noteq> ps) (suffixes ps)))"

text \<open>
  What enrichment makes of a raw section \<open>r\<close>: the enriched section \<open>n\<close> keeps the header,
  has a level, and its content is the heading line and the raw content of \<open>r\<close> followed
  by the content of each of its own subsections, in their order, each after a blank line.
\<close>

definition enriched_from :: "section_node \<Rightarrow> section_node \<Rightarrow> bool" where
  "enriched_from r n =
     (case (get_header r, get_content r, get_level n) of
        (Some h, Some raw, Some l) \<Rightarrow>
          get_header n = Some h
          \<and> get_content n
              = Some (heading_content l h raw
                      @ concat (map (\<lambda>k. [NL, NL] @ content_of k) (subsections_of n)))
      | _ \<Rightarrow> False)"

text \<open>
  A small tree as the completion service returns it: a section \<open>A\<close> whose subsection \<open>B\<close>
  has the subsection \<open>C\<close>, and the tree that enrichment makes of it.
\<close>

definition example_raw_C :: section_node where
  "example_raw_C = Section (Some ''C'') (Some ''tc'') None None None None"

definition example_raw_B :: section_node where
  "example_raw_B = Section (Some ''B'') (Some ''tb'') (Some [example_raw_C]) None None None"

definition example_raw_A :: section_node where
  "example_raw_A = Section (Some ''A'') (Some ''ta'') (Some [example_raw_B]) None None None"

definition example_C :: section_node where
  "example_C = Section (Some ''C'') (Some ''### C\<newline>\<newline>tc'') None
                 (Some [''A'', ''B'']) (Some 3) None"

definition example_B :: section_node where
  "example_B = Section (Some ''B'') (Some ''## B\<newline>\<newline>tb\<newline>\<newline>### C\<newline>\<newline>tc'')
                 (Some [example_C]) (Some [''A'']) (Some 2) None"

definition example_A :: section_node where
  "example_A = Section (Some ''A'')
                 (Some ''# A\<newline>\<newline>ta\<newline>\<newline>## B\<newline>\<newline>tb\<newline>\<newline>### C\<newline>\<newline>tc'')
                 (Some [example_B]) (Some []) (Some 1) None"

text \<open>The content of a node ends with the contents of its subsections, in order.\<close>

definition decomposed :: "section_node \<Rightarrow> bool" where
  "decomposed m = (\<exists>pre. content_of m
      = pre @ concat (map (\<lambda>k. [NL, NL] @ content_of k) (subsections_of m)))"

section \<open>The section splitter: \<open>split_content_with_llm\<close>\<close>

text \<open>\<open>str(n)\<close> for a natural number: its decimal digits.\<close>

definition digit_char :: "nat \<Rightarrow> char" where
  "digit_char d = ''0123456789'' ! d"

function str_nat :: "nat \<Rightarrow> string" where
  "str_nat n = (if n < 10 then [digit_char n] else str_nat (n div 10) @ [digit_char (n mod 10)])"
  by pat_completeness auto
termination
  by (relation "measure id") auto

text \<open>
  The prompt of \<open>split_content_with_llm\<close>, line by line. The second line names the title
  when one is given and not empty, and is empty otherwise.
\<close>

definition split_prompt :: "string option \<Rightarrow> string \<Rightarrow> string" where
  \<open>split_prompt title content =
     str_join [NL]
       [[],
        ''The following text is a markdown of a webpage which contains an article. '',
        (case title of
           None \<Rightarrow> []
         | Some t \<Rightarrow> if t = [] then [] else ''The article title is `'' @ t @ ''`.''),
        [],
        ''Rules:'',
        ''1. This markdown is mixed with many parts of the webpage which are not the actual article or the main content.'',
        ''2. Analyze carefully the markdown and assume there can be some errors in heading and spacing.'',
        ''3. You must EXTRACT the actual article or the main content, ORGANIZE it by markdown headers, '',
        ''spacing and semantic.'',
        ''4. If you can'' @ [CHR 0x27] @ ''t identify a header consider it is the same content.'',
        ''5. Recopy the content of each header AS IS. SUMMARIZATION NOT ALLOWED. Just fix punctuation and spacing issues.'',
        ''6. Your response will be parsed. Avoid any comment or json errors.'',
        ''7. If there is no header present, propose your own header based on the content'',
        ''8. RETURN a response in the following format:'',
        [],
        ''[{'',
        ''  "header": "Top level header",'',
        ''  "content": "El Plan VEA es un programa de ayudas lanzado ... until the end",'',
        ''  "subsections": ['',
        ''    {'',
        ''      "header": "Mid level header",'',
        ''      "content": "Los objetivos principales del Plan VEA son ... until the end",'',
        ''      "subsections": ['',
        ''        {'',
        ''          "header": "Low level header",'',
        ''          "content": "Muchos usuarios temen que las ayudas del ... until the end"'',
        ''        }'',
        ''      ]'',
        ''    }'',
        ''  ]'',
        ''}]'',
        [],
        ''Text:'',
        ''-------'',
        content,
        ''-------'']\<close>

text \<open>
  \<open>parse_llm_response_to_json_list\<close>. The scanner of pyparsing and \<open>json.loads\<close> are
  library functions and parameters of the model: \<open>search_string response\<close> is
  \<open>results.as_list()\<close>, the list of the matches of a balanced bracketed array that
  starts a line, each match a list of tokens (with \<open>originalTextFor\<close>, the matched text);
  \<open>json_loads text\<close> is the parsed tree, or \<open>Inl\<close> the message of the
  \<open>json.JSONDecodeError\<close>. The index \<open>[0][0]\<close> raises \<open>IndexError\<close> when there is no match.
\<close>

type_synonym scanner = "string \<Rightarrow> string list list"

type_synonym json_loader = "string \<Rightarrow> string + section_node list"

definition parse_llm_response_to_json_list ::
  "scanner \<Rightarrow> json_loader \<Rightarrow> string \<Rightarrow> py_error + section_node list" where
  "parse_llm_response_to_json_list search_string json_loads response =
     (case search_string response of
        [] \<Rightarrow> Inl IndexError
      | tokens # _ \<Rightarrow>
          (case tokens of
             [] \<Rightarrow> Inl IndexError
           | res_json_str # _ \<Rightarrow>
               (case json_loads res_json_str of
                  Inl msg \<Rightarrow> Inl (JSONDecodeError msg)
                | Inr tree \<Rightarrow> Inr tree)))"

text \<open>
  The retry loop \<open>for _ in range(5)\<close>, by the number of attempts left. Only
  \<open>json.JSONDecodeError\<close> is caught: its message becomes one more user turn. Any other
  exception leaves the function. When no attempt is left, the \<open>else\<close> branch of the loop
  raises.
\<close>

definition retries_exhausted :: py_error where
  "retries_exhausted =
     ValueError (''The LLM can'' @ [CHR 0x27] @ ''t return valid JSON after 5 tries.'')"

definition json_error_turn :: "string \<Rightarrow> message" where
  "json_error_turn msg = (''user'', ''Your response is not valid JSON: '' @ msg)"

fun split_attempts ::
  "llm_service \<Rightarrow> scanner \<Rightarrow> json_loader \<Rightarrow> string \<Rightarrow> nat \<Rightarrow> message list \<Rightarrow> llm_log
     \<Rightarrow> (py_error + section_node list) \<times> llm_log" where
  "split_attempts llm search_string json_loads prompt 0 errors log =
     (Inl retries_exhausted, log)"
| "split_attempts llm search_string json_loads prompt (Suc n) errors log =
     (let messages = (''user'', prompt) # errors;
          (response, log') = complete_messages llm log messages
      in case parse_llm_response_to_json_list search_string json_loads response of
           Inr resp \<Rightarrow> (Inr resp, log')
         | Inl (JSONDecodeError msg) \<Rightarrow>
             split_attempts llm search_string json_loads prompt n
               (errors @ [json_error_turn msg]) log'
         | Inl e \<Rightarrow> (Inl e, log'))"

text \<open>
  The tree cache is a directory with one JSON file per document hash; the model is a map
  from the hash to the stored tree (what \<open>json.load\<close> reads is what \<open>json.dumps\<close> wrote).
\<close>

type_synonym tree_cache = "string \<rightharpoonup> section_node list"

definition get_cached_content_json_tree ::
  "(string \<Rightarrow> string) \<Rightarrow> tree_cache \<Rightarrow> string \<Rightarrow> string option
     \<Rightarrow> string \<times> section_node list option" where
  "get_cached_content_json_tree sha256_hexdigest cache content doc_hash =
     (let hash = resolve_hash sha256_hexdigest content doc_hash in (hash, cache hash))"

definition save_in_cache_content_json_tree ::
  "tree_cache \<Rightarrow> string \<Rightarrow> section_node list \<Rightarrow> tree_cache" where
  "save_in_cache_content_json_tree cache hash json_tree = cache(hash \<mapsto> json_tree)"

text \<open>
  \<open>split_content_with_llm\<close> returns the hash and the tree or raises; the model also
  returns the cache and the log of the completion service after the call. \<open>if res:\<close> is
  true for a cached tree that is not empty.
\<close>

definition split_content_with_llm ::
  "(string \<Rightarrow> string) \<Rightarrow> (string \<Rightarrow> nat) \<Rightarrow> scanner \<Rightarrow> json_loader \<Rightarrow> llm_service
     \<Rightarrow> tree_cache \<Rightarrow> llm_log \<Rightarrow> string \<Rightarrow> string option \<Rightarrow> string option
     \<Rightarrow> (py_error + (string \<times> section_node list)) \<times> tree_cache \<times> llm_log" where
  "split_content_with_llm sha256_hexdigest count_tokens search_string json_loads llm
       cache log content title doc_hash =
     (let (hash, res) = get_cached_content_json_tree sha256_hexdigest cache content doc_hash
      in if res \<noteq> None \<and> res \<noteq> Some [] then (Inr (hash, the res), cache, log)
         else if content = [] then (Inl (ValueError ''Empty content''), cache, log)
         else
           let prompt = split_prompt title content;
               tokens_count = count_tokens prompt
           in if tokens_count > 100000
              then (Inl (ValueError (''TOO MANY TOKENS tokens_count = '' @ str_nat tokens_count)),
                    cache, log)
              else
                (case split_attempts llm search_string json_loads prompt 5 [] log of
                   (Inl e, log') \<Rightarrow> (Inl e, cache, log')
                 | (Inr resp, log') \<Rightarrow>
                     (case enrich_sections_top resp of
                        Inl e \<Rightarrow> (Inl e, cache, log')
                      | Inr resp' \<Rightarrow>
                          (Inr (hash, resp'),
                           save_in_cache_content_json_tree cache hash resp', log'))))"

section \<open>Answer modes and \<open>_process_section_matchs\<close>\<close>

datatype SectionAnswerMode =
    FIRST_BEST_RAW
  | FIRST_BEST_SUMMARY
  | TOP_K_RAW
  | TOP_K_COMBINE
  | TOP_K_SUMMARY
  | TOP_K_RESTRANSCRIPT

text \<open>
  A section match is the dictionary that the vector store returns for a header query. The
  keys that the code reads with \<open>match['k']\<close> are fields; the three keys that it reads
  with \<open>match.get('k')\<close> are optional. The score is a float: the field holds the text that
  an f-string makes of it.
\<close>

record section_match =
  match_header :: string
  match_parents :: "string list"
  match_level :: nat
  match_score :: string
  match_source_title :: string
  match_source_url :: "string option"
  match_source_author :: "string option"
  match_source_type :: "string option"
  match_content :: string
  match_sql_doc_id :: string

text \<open>
  \<open>s.replace(old, '')\<close> deletes the occurrences of \<open>old\<close> found from the left, without
  overlap (nothing for an empty \<open>old\<close>); \<open>s.lstrip('-')\<close> drops the leading hyphens.
\<close>

function str_remove :: "string \<Rightarrow> string \<Rightarrow> string" where
  "str_remove old [] = []"
| "str_remove old (c # cs) =
     (if old \<noteq> [] \<and> prefix old (c # cs) then str_remove old (drop (length old) (c # cs))
      else c # str_remove old cs)"
  by pat_completeness auto
termination
  by (relation "measure (\<lambda>(old, s). length s)") (auto simp: neq_Nil_conv)

definition str_lstrip_hyphen :: "string \<Rightarrow> string" where
  "str_lstrip_hyphen s = dropWhile (\<lambda>c. c = CHR ''-'') s"

text \<open>An optional source line: \<open>if section_match.get('k'): content += f"\nlabel: {...}"\<close>.\<close>

definition optional_line :: "string \<Rightarrow> string option \<Rightarrow> string" where
  "optional_line label v =
     (case v of None \<Rightarrow> [] | Some x \<Rightarrow> if x = [] then [] else [NL] @ label @ x)"

definition section_match_to_context_entry :: "section_match \<Rightarrow> string" where
  "section_match_to_context_entry m =
     (let ps = match_parents m;
          hdr = (if ps \<noteq> []
                 then str_strip (str_lstrip_hyphen
                        (str_strip (str_remove (str_join '' - '' ps) (match_header m))))
                 else match_header m);
          parents_hierarchy = (if ps \<noteq> [] then str_join '' -> '' ps else [])
      in ''Header: '' @ hdr @ [NL] @ ''Parents Hierarchy: '' @ parents_hierarchy
         @ [NL] @ ''Level: '' @ str_nat (match_level m)
         @ [NL] @ ''Semantic score: '' @ match_score m
         @ [NL] @ ''Source title: '' @ match_source_title m
         @ optional_line ''Source url: '' (match_source_url m)
         @ optional_line ''Source author: '' (match_source_author m)
         @ optional_line ''Source type: '' (match_source_type m)
         @ [NL] @ ''Content: '' @ match_content m)"

definition format_context_entries :: "string list \<Rightarrow> string" where
  "format_context_entries context_entries =
     (let ctx = str_join ([NL] @ ''~~~~~~~~~'' @ [NL]) context_entries
      in ''++++++++++++++++'' @ [NL] @ ctx @ [NL] @ ''++++++++++++++++'')"

text \<open>The three prompts over the formatted context; each is sent as one user turn.\<close>

definition summary_msg_content :: "string list \<Rightarrow> string" where
  "summary_msg_content context_entries =
     ''Generate a summary of the following context and cite your sources'' @ [NL, NL]
     @ format_context_entries context_entries"

definition combine_msg_content :: "string list \<Rightarrow> string option \<Rightarrow> string" where
  "combine_msg_content context_entries question =
     (if question \<noteq> None \<and> question \<noteq> Some []
      then ''Combine the following context in a clear and smart way, and cite your sources to answer ''
           @ [NL] @ ''this question: '' @ the question @ [NL, NL]
           @ format_context_entries context_entries
      else ''Combine the following context in a clear and smart way, and cite your sources''
           @ [NL, NL] @ format_context_entries context_entries)"

definition retranscript_msg_content :: "string list \<Rightarrow> string option \<Rightarrow> string" where
  "retranscript_msg_content context_entries question =
     (if question \<noteq> None \<and> question \<noteq> Some []
      then ''Restranscript the following context in a clear and smart way, and cite your sources to answer''
           @ [NL] @ ''this question: '' @ the question @ [NL, NL]
           @ format_context_entries context_entries
      else ''Retranscript the following context in a clear and smart way, and cite your sources''
           @ [NL, NL] @ format_context_entries context_entries)"

definition ask :: "llm_service \<Rightarrow> llm_log \<Rightarrow> string \<Rightarrow> (py_error + string) \<times> llm_log" where
  "ask llm log msg_content =
     (let (reply, log') = complete_messages llm log [(''user'', msg_content)]
      in (Inr reply, log'))"

text \<open>
  \<open>_process_section_matchs(matchs, mode, top_k, question)\<close>. \<open>get_content_from_id\<close> is the
  metadata store (work title and identifier to content). \<open>matchs[0]\<close> raises
  \<open>IndexError\<close> on the empty list; \<open>matchs[:top_k]\<close> is a slice and never raises.
\<close>

definition process_section_matchs ::
  "llm_service \<Rightarrow> (string \<Rightarrow> string \<Rightarrow> string) \<Rightarrow> string \<Rightarrow> llm_log
     \<Rightarrow> section_match list \<Rightarrow> SectionAnswerMode \<Rightarrow> int \<Rightarrow> string option
     \<Rightarrow> (py_error + string) \<times> llm_log" where
  "process_section_matchs llm get_content_from_id work_title log matchs mode top_k question =
     (case mode of
        FIRST_BEST_RAW \<Rightarrow>
          (case matchs of
             [] \<Rightarrow> (Inl IndexError, log)
           | m # _ \<Rightarrow> (Inr (get_content_from_id work_title (match_sql_doc_id m)), log))
      | FIRST_BEST_SUMMARY \<Rightarrow>
          (case matchs of
             [] \<Rightarrow> (Inl IndexError, log)
           | m # _ \<Rightarrow> ask llm log (summary_msg_content [section_match_to_context_entry m]))
      | TOP_K_RAW \<Rightarrow>
          (Inr (format_context_entries
                  (map section_match_to_context_entry (py_slice matchs 0 top_k))), log)
      | TOP_K_SUMMARY \<Rightarrow>
          ask llm log (summary_msg_content
                         (map section_match_to_context_entry (py_slice matchs 0 top_k)))
      | TOP_K_COMBINE \<Rightarrow>
          ask llm log (combine_msg_content
                         (map section_match_to_context_entry (py_slice matchs 0 top_k)) question)
      | TOP_K_RESTRANSCRIPT \<Rightarrow>
          ask llm log (retranscript_msg_content
                         (map section_match_to_context_entry (py_slice matchs 0 top_k)) question))"

text \<open>A match for the section \<open>C\<close> under \<open>A\<close> and \<open>B\<close>.\<close>

definition example_match :: section_match where
  "example_match =
     \<lparr>match_header = ''A - B - C'', match_parents = [''A'', ''B''], match_level = 3,
      match_score = ''0.83'', match_source_title = ''T'', match_source_url = Some ''http://x'',
      match_source_author = None, match_source_type = Some [], match_content = ''text'',
      match_sql_doc_id = ''id1''\<rparr>"

section \<open>The strategy engine: \<open>get_answer\<close>\<close>

text \<open>
  \<open>get_answer\<close> calls four methods of the class, which reach the completion service and
  the vector store: \<open>_classify_answer_for_question\<close>, \<open>get_direct_answer\<close> (with
  alternates and hypothetical answers), \<open>check_if_answer_is_correct\<close> and
  \<open>get_section_as_answer_from_question\<close> (the section-header retrieval, with alternates).
  The model of \<open>get_answer\<close> takes them as parameters. Each may raise, and each may
  answer differently on every call, so its result is a function of the invocations made
  before and of its arguments; \<open>get_answer\<close> returns its result and the invocations
  extended by the ones it made, which is what lets a theorem say which methods are called.
\<close>

datatype invocation =
    Classify string
  | DirectAnswer string
  | CheckAnswer string string
  | SectionRetrieval string SectionAnswerMode int

record methods =
  classify_answer_for_question :: "invocation list \<Rightarrow> string \<Rightarrow> py_error + (string \<rightharpoonup> string)"
  get_direct_answer :: "invocation list \<Rightarrow> string \<Rightarrow> py_error + string"
  answer_is_correct :: "invocation list \<Rightarrow> string \<Rightarrow> string \<Rightarrow> py_error + bool"
  get_section_as_answer_from_question ::
    "invocation list \<Rightarrow> string \<Rightarrow> SectionAnswerMode \<Rightarrow> int \<Rightarrow> py_error + string"

text \<open>
  The first statement of \<open>get_answer\<close>: the number of sentences and the kind. Without the
  argument \<open>number_of_sentences\<close> the classifier is asked, and both values are uppercased
  (a missing key \<open>number_of_sentences\<close> is a \<open>KeyError\<close>). With the argument, the kind comes
  from the mode; the chained comparison \<open>mode == TOP_K_COMBINE == "COMBINE"\<close> compares an
  enumeration member with a string and is never true.
\<close>

definition classification ::
  "methods \<Rightarrow> invocation list \<Rightarrow> string \<Rightarrow> SectionAnswerMode option \<Rightarrow> string option
     \<Rightarrow> (py_error + (string \<times> string option)) \<times> invocation list" where
  "classification M trace question mode number_of_sentences =
     (case number_of_sentences of
        None \<Rightarrow>
          (case classify_answer_for_question M trace question of
             Inl e \<Rightarrow> (Inl e, trace @ [Classify question])
           | Inr classified_answer \<Rightarrow>
               (case classified_answer ''number_of_sentences'' of
                  None \<Rightarrow> (Inl (KeyError ''number_of_sentences''), trace @ [Classify question])
                | Some n \<Rightarrow>
                    (Inr (str_upper n, map_option str_upper (classified_answer ''kind'')),
                     trace @ [Classify question])))
      | Some n \<Rightarrow>
          (let kind =
             (if mode = Some FIRST_BEST_SUMMARY \<or> mode = Some TOP_K_SUMMARY then Some ''SUMMARY''
              else if mode = Some TOP_K_COMBINE \<and> False then Some ''COMBINE''
              else None)
           in (Inr (n, kind), trace)))"

text \<open>\<open>if not mode:\<close> is true only for \<open>None\<close>: a member of the enumeration is truthy.\<close>

definition few_mode :: "SectionAnswerMode option \<Rightarrow> bool \<Rightarrow> SectionAnswerMode" where
  "few_mode mode return_raw =
     (case mode of
        None \<Rightarrow> if return_raw then TOP_K_RAW else TOP_K_COMBINE
      | Some m \<Rightarrow> m)"

definition too_many_mode ::
  "SectionAnswerMode option \<Rightarrow> bool \<Rightarrow> string option \<Rightarrow> SectionAnswerMode" where
  "too_many_mode mode return_raw kind =
     (case mode of
        None \<Rightarrow>
          if return_raw then TOP_K_RAW
          else if kind = Some ''SUMMARY'' then TOP_K_RESTRANSCRIPT
          else TOP_K_COMBINE
      | Some m \<Rightarrow> m)"

definition wrong_number_of_sentences :: "string \<Rightarrow> py_error" where
  "wrong_number_of_sentences n =
     ValueError (''Wrong value for number_of_sentences '' @ [CHR 0x27] @ n @ [CHR 0x27])"

definition get_answer ::
  "methods \<Rightarrow> invocation list \<Rightarrow> string \<Rightarrow> int \<Rightarrow> bool \<Rightarrow> SectionAnswerMode option
     \<Rightarrow> string option \<Rightarrow> (py_error + string) \<times> invocation list" where
  "get_answer M trace question top_k return_raw mode number_of_sentences =
     (case classification M trace question mode number_of_sentences of
        (Inl e, trace1) \<Rightarrow> (Inl e, trace1)
      | (Inr (n, kind), trace1) \<Rightarrow>
          if n = ''ONE''
          then (get_direct_answer M trace1 question, trace1 @ [DirectAnswer question])
          else if n = ''FEW''
          then
            (case get_direct_answer M trace1 question of
               Inl e \<Rightarrow> (Inl e, trace1 @ [DirectAnswer question])
             | Inr first_answer \<Rightarrow>
                 (let trace2 = trace1 @ [DirectAnswer question]
                  in case answer_is_correct M trace2 question first_answer of
                       Inl e \<Rightarrow> (Inl e, trace2 @ [CheckAnswer question first_answer])
                     | Inr is_good \<Rightarrow>
                         (let trace3 = trace2 @ [CheckAnswer question first_answer]
                          in if is_good then (Inr first_answer, trace3)
                             else
                               (get_section_as_answer_from_question M trace3 question
                                  (few_mode mode return_raw) top_k,
                                trace3 @ [SectionRetrieval question
                                            (few_mode mode return_raw) top_k]))))
          else if n = ''TOO_MANY''
          then
            (get_section_as_answer_from_question M trace1 question
               (too_many_mode mode return_raw kind) top_k,
             trace1 @ [SectionRetrieval question (too_many_mode mode return_raw kind) top_k])
          else (Inl (wrong_number_of_sentences n), trace1))"

definition is_section_retrieval :: "invocation \<Rightarrow> bool" where
  "is_section_retrieval i = (case i of SectionRetrieval q m k \<Rightarrow> True | _ \<Rightarrow> False)"

text \<open>
  Stand-ins for the four methods: the classifier says FEW, the direct answer is \<open>draft\<close>,
  the self-verification rejects it, and the section retrieval answers with \<open>sections\<close>.
\<close>

definition example_methods :: methods where
  "example_methods =
     \<lparr>classify_answer_for_question = (\<lambda>trace question. Inr [''number_of_sentences'' \<mapsto> ''few'']),
      get_direct_answer = (\<lambda>trace question. Inr ''draft''),
      answer_is_correct = (\<lambda>trace question answer. Inr False),
      get_section_as_answer_from_question = (\<lambda>trace question mode top_k. Inr ''sections'')\<rparr>"

section \<open>Properties of the string functions\<close>

text \<open>From here on the theory proves; every definition is above.\<close>

lemma str_in_sublist: "str_in sub s = sublist sub s"
  by (induction s) (auto simp: sublist_Cons_right)

lemma dropWhile_NL_replicate:
  "dropWhile (\<lambda>d. d = NL) (replicate n NL @ ys) = dropWhile (\<lambda>d. d = NL) ys"
  by (induction n) simp_all

lemma rgx_2_lines_sub_extra_newlines:
  "rgx_2_lines_sub (xs @ NL # replicate n NL @ ys) = rgx_2_lines_sub (xs @ NL # ys)"
proof (induction xs rule: rgx_2_lines_sub.induct)
  case 1
  show ?case by (simp add: dropWhile_NL_replicate)
next
  case (2 c cs)
  show ?case
  proof (cases "c = NL")
    case False
    with 2 show ?thesis by simp
  next
    case True
    show ?thesis
    proof (cases "dropWhile (\<lambda>d. d = NL) cs = []")
      case True
      then have all: "\<forall>x\<in>set cs. x = NL"
        by (simp add: dropWhile_eq_Nil_conv)
      have "dropWhile (\<lambda>d. d = NL) (cs @ zs) = dropWhile (\<lambda>d. d = NL) zs" for zs
        using all by (simp add: dropWhile_append2)
      with \<open>c = NL\<close> show ?thesis by (simp add: dropWhile_NL_replicate)
    next
      case False
      then obtain x where x: "x \<in> set cs" "x \<noteq> NL"
        by (auto simp: dropWhile_eq_Nil_conv)
      then have "dropWhile (\<lambda>d. d = NL) (cs @ zs) = dropWhile (\<lambda>d. d = NL) cs @ zs" for zs
        by (intro dropWhile_append1) auto
      with \<open>c = NL\<close> 2(1) show ?thesis by simp
    qed
  qed
qed

lemma rgx_space_sub_append: "rgx_space_sub (xs @ ys) = rgx_space_sub xs @ rgx_space_sub ys"
  by (simp add: rgx_space_sub_def)

lemma rgx_space_sub_spaces: "rgx_space_sub (replicate n SP) = []"
  by (simp add: rgx_space_sub_def)

section \<open>Claims\<close>

subsection \<open>Self-verification and the document hash\<close>

text \<open>
  C9. \<open>check_if_answer_is_correct\<close> returns True exactly when the reply of the completion
  service, lowercased, contains \<open>yes\<close> as a substring: a reply that says NO and contains
  \<open>yes\<close> elsewhere is taken as verified, and the empty reply (like any reply without the
  substring) is rejected. The service is called once, with the one user turn built from
  the question and the answer.
\<close>

theorem check_if_answer_is_correct_iff_yes:
  "fst (check_if_answer_is_correct llm log work_title question answer)
     = sublist ''yes'' (str_lower (llm log [(''user'', check_msg_content work_title question answer)]))
   \<and> snd (check_if_answer_is_correct llm log work_title question answer)
     = log @ [[(''user'', check_msg_content work_title question answer)]]
   \<and> fst (check_if_answer_is_correct (\<lambda>_ _. ''NO. Saying YES here would be wrong.'')
          log work_title question answer) = True
   \<and> fst (check_if_answer_is_correct (\<lambda>_ _. []) log work_title question answer) = False
   \<and> fst (check_if_answer_is_correct (\<lambda>_ _. ''NO'') log work_title question answer) = False"
  by (simp add: check_if_answer_is_correct_def complete_messages_def Let_def
      str_in_sublist [symmetric] str_lower_def lower_char_def ascii_uppercase_def
      ascii_lowercase_def)

text \<open>
  C5 (as amended). The document hash is unchanged by inserting space characters anywhere
  in the text, and by inserting newlines directly after a newline the text already has
  (extra blank lines between lines): \<open>get_doc_hash\<close> deletes every space character
  (U+0020 only; tabs, carriage returns and single newlines stay), then replaces every run
  of two or more newlines by one, and hashes the result.
\<close>

theorem get_doc_hash_extra_spaces_blank_lines:
  "get_doc_hash H (xs @ replicate n SP @ ys) = get_doc_hash H (xs @ ys)
   \<and> get_doc_hash H (xs @ NL # replicate n NL @ ys) = get_doc_hash H (xs @ NL # ys)
   \<and> get_doc_hash H content = H (rgx_2_lines_sub (filter (\<lambda>c. c \<noteq> SP) content))"
proof -
  have "rgx_space_sub (xs @ NL # replicate n NL @ ys)
      = rgx_space_sub xs @ NL # replicate n NL @ rgx_space_sub ys"
    by (simp add: rgx_space_sub_def)
  moreover have "rgx_space_sub (xs @ NL # ys) = rgx_space_sub xs @ NL # rgx_space_sub ys"
    by (simp add: rgx_space_sub_def)
  ultimately show ?thesis
    by (simp add: get_doc_hash_def rgx_space_sub_append rgx_space_sub_spaces
        rgx_2_lines_sub_extra_newlines) (simp add: rgx_space_sub_def)
qed

text \<open>
  C5 as stated fails: a tab is a whitespace character, and inserting one between \<open>a\<close>
  and \<open>b\<close> changes the text that is hashed (the tab is not stripped), so the two
  document hashes agree only if the hash function itself collides on the two different
  texts; so does a blank line put in front of a text. With an injective stand-in for
  SHA-256 the hashes differ.
\<close>

theorem get_doc_hash_all_whitespace_counterexample:
  "rgx_2_lines_sub (rgx_space_sub [CHR ''a'', CHR 0x09, CHR ''b'']) = [CHR ''a'', CHR 0x09, CHR ''b'']
   \<and> rgx_2_lines_sub (rgx_space_sub ''ab'') = ''ab''
   \<and> rgx_2_lines_sub (rgx_space_sub [NL, CHR ''a'', CHR ''b'']) = [NL, CHR ''a'', CHR ''b'']
   \<and> (\<forall>H. (get_doc_hash H [CHR ''a'', CHR 0x09, CHR ''b''] = get_doc_hash H ''ab'')
          = (H [CHR ''a'', CHR 0x09, CHR ''b''] = H ''ab''))
   \<and> \<not> (\<forall>H. get_doc_hash H [CHR ''a'', CHR 0x09, CHR ''b''] = get_doc_hash H ''ab'')
   \<and> \<not> (\<forall>H. get_doc_hash H [NL, CHR ''a'', CHR ''b''] = get_doc_hash H ''ab'')"
proof -
  have n1: "rgx_2_lines_sub (rgx_space_sub [CHR ''a'', CHR 0x09, CHR ''b'']) = [CHR ''a'', CHR 0x09, CHR ''b'']"
    by (simp add: rgx_space_sub_def)
  have n2: "rgx_2_lines_sub (rgx_space_sub ''ab'') = ''ab''"
    by (simp add: rgx_space_sub_def)
  have n3: "rgx_2_lines_sub (rgx_space_sub [NL, CHR ''a'', CHR ''b'']) = [NL, CHR ''a'', CHR ''b'']"
    by (simp add: rgx_space_sub_def)
  have "get_doc_hash (\<lambda>s. s) [CHR ''a'', CHR 0x09, CHR ''b''] \<noteq> get_doc_hash (\<lambda>s. s) ''ab''"
    by (simp add: get_doc_hash_def n1 n2)
  then have c1: "\<not> (\<forall>H. get_doc_hash H [CHR ''a'', CHR 0x09, CHR ''b''] = get_doc_hash H ''ab'')"
    by blast
  have "get_doc_hash (\<lambda>s. s) [NL, CHR ''a'', CHR ''b''] \<noteq> get_doc_hash (\<lambda>s. s) ''ab''"
    by (simp add: get_doc_hash_def n3 n2)
  then have c2: "\<not> (\<forall>H. get_doc_hash H [NL, CHR ''a'', CHR ''b''] = get_doc_hash H ''ab'')"
    by blast
  have c3: "\<forall>H. (get_doc_hash H [CHR ''a'', CHR 0x09, CHR ''b''] = get_doc_hash H ''ab'')
          = (H [CHR ''a'', CHR 0x09, CHR ''b''] = H ''ab'')"
    by (simp add: get_doc_hash_def n1 n2)
  from n1 n2 n3 c1 c2 c3 show ?thesis by blast
qed

subsection \<open>The sentence windows\<close>








subsection \<open>The embedding batches\<close>

lemma greedy_snoc:
  "greedy_batches tok (bs @ [b]) \<Longrightarrow> b \<noteq> [] \<Longrightarrow> greedy_batches tok (bs @ [b @ [s]])"
  by (induction tok bs rule: greedy_batches.induct) (auto simp: neq_Nil_conv)

lemma greedy_flush:
  "greedy_batches tok (bs @ [b]) \<Longrightarrow> batch_tokens tok b + tok s > 250000
   \<Longrightarrow> greedy_batches tok ((bs @ [b]) @ [[s]])"
  by (induction tok bs rule: greedy_batches.induct) (auto simp: neq_Nil_conv)

lemma greedy_butlast:
  "greedy_batches tok (bs @ [b]) \<Longrightarrow> greedy_batches tok bs"
  by (induction tok bs rule: greedy_batches.induct) (auto simp: neq_Nil_conv)

lemma batch_tokens_simps [simp]:
  "batch_tokens tok [] = 0"
  "batch_tokens tok (b @ [s]) = batch_tokens tok b + tok s"
  "batch_tokens tok [s] = tok s"
  by (simp_all add: batch_tokens_def)

lemma embed_loop_inv:
  assumes "embed_loop enc tok rest vectors tmp n calls = (r, calls')"
    and "n = batch_tokens tok tmp"
    and "\<forall>s\<in>set rest. tok s \<le> 250000"
    and "n \<le> 250000"
    and "batches_ok tok calls"
    and "greedy_batches tok (calls @ [tmp])"
    and "calls \<noteq> [] \<longrightarrow> tmp \<noteq> []"
  shows "batches_ok tok calls' \<and>
    (case r of
       Inr (v', tmp', n') \<Rightarrow>
         concat calls' @ tmp' = concat calls @ tmp @ rest \<and> n' = batch_tokens tok tmp'
         \<and> n' \<le> 250000 \<and> greedy_batches tok (calls' @ [tmp']) \<and> (calls' \<noteq> [] \<longrightarrow> tmp' \<noteq> [])
         \<and> (\<exists>new. calls' = calls @ new \<and> v' = vectors @ concat (map (encoded enc) new)
              \<and> (\<forall>b\<in>set new. \<exists>vs. enc b = Inr vs))
     | Inl e \<Rightarrow> prefix (concat calls') (concat calls @ tmp @ rest) \<and> greedy_batches tok calls'
         \<and> calls' \<noteq> [] \<and> enc (last calls') = Inl e)"
  using assms
proof (induction rest arbitrary: vectors tmp n calls)
  case Nil
  then show ?case by auto
next
  case (Cons s rest)
  show ?case
  proof (cases "n + tok s > 250000")
    case False
    have g: "greedy_batches tok (calls @ [tmp @ [s]])"
    proof (cases "tmp = []")
      case True
      with Cons.prems(7) have "calls = []" by auto
      then show ?thesis by simp
    next
      case False
      with Cons.prems(6) show ?thesis by (rule greedy_snoc)
    qed
    from False Cons.prems(1)
    have run: "embed_loop enc tok rest vectors (tmp @ [s]) (n + tok s) calls = (r, calls')"
      by simp
    have "batches_ok tok calls' \<and>
      (case r of
         Inr (v', tmp', n') \<Rightarrow>
           concat calls' @ tmp' = concat calls @ (tmp @ [s]) @ rest \<and> n' = batch_tokens tok tmp'
           \<and> n' \<le> 250000 \<and> greedy_batches tok (calls' @ [tmp']) \<and> (calls' \<noteq> [] \<longrightarrow> tmp' \<noteq> [])
           \<and> (\<exists>new. calls' = calls @ new \<and> v' = vectors @ concat (map (encoded enc) new)
                \<and> (\<forall>b\<in>set new. \<exists>vs. enc b = Inr vs))
       | Inl e \<Rightarrow> prefix (concat calls') (concat calls @ (tmp @ [s]) @ rest) \<and> greedy_batches tok calls'
           \<and> calls' \<noteq> [] \<and> enc (last calls') = Inl e)"
      using False Cons.prems g by (intro Cons.IH [OF run]) auto
    then show ?thesis by (auto split: sum.splits)
  next
    case True
    from Cons.prems(3) have ts: "tok s \<le> 250000" by simp
    with True Cons.prems(2) have ne: "tmp \<noteq> []" by auto
    have ok: "batches_ok tok (calls @ [tmp])"
      using Cons.prems(2,4,5) ne by (simp add: batches_ok_def)
    show ?thesis
    proof (cases "enc tmp")
      case (Inl e)
      with True Cons.prems(1) have "r = Inl e" "calls' = calls @ [tmp]" by simp_all
      with ok Cons.prems(6) Inl show ?thesis by simp
    next
      case (Inr vs)
      with True Cons.prems(1)
      have run: "embed_loop enc tok rest (vectors @ vs) [s] (tok s) (calls @ [tmp]) = (r, calls')"
        by simp
      have g: "greedy_batches tok ((calls @ [tmp]) @ [[s]])"
        using Cons.prems(6) True Cons.prems(2) by (intro greedy_flush) simp_all
      have "batches_ok tok calls' \<and>
        (case r of
           Inr (v', tmp', n') \<Rightarrow>
             concat calls' @ tmp' = concat (calls @ [tmp]) @ [s] @ rest \<and> n' = batch_tokens tok tmp'
             \<and> n' \<le> 250000 \<and> greedy_batches tok (calls' @ [tmp']) \<and> (calls' \<noteq> [] \<longrightarrow> tmp' \<noteq> [])
             \<and> (\<exists>new. calls' = (calls @ [tmp]) @ new \<and> v' = (vectors @ vs) @ concat (map (encoded enc) new)
                  \<and> (\<forall>b\<in>set new. \<exists>vs. enc b = Inr vs))
         | Inl e \<Rightarrow> prefix (concat calls') (concat (calls @ [tmp]) @ [s] @ rest) \<and> greedy_batches tok calls'
             \<and> calls' \<noteq> [] \<and> enc (last calls') = Inl e)"
        using ts ok g Cons.prems(3) by (intro Cons.IH [OF run]) auto
      then show ?thesis
        using Inr by (auto split: sum.splits simp: encoded_def)
    qed
  qed
qed

text \<open>
  C7 (as amended). When no sentence alone has more than 250000 tokens (and the embeddings
  are not cached), the batches handed to \<open>encode_documents\<close> are non-empty, each within
  250000 tokens, greedy (a batch together with the first sentence of the next one would
  exceed the cap), and consecutive pieces of the sentence list in order. When the
  service answers every batch, the batches are the whole list (the last buffer is
  flushed), the result is the vectors of the batches in order, and it is stored under the
  document hash.
\<close>

theorem embedding_batches_partition:
  assumes "doc_hash \<noteq> []" and "cache doc_hash = None"
    and "\<forall>s\<in>set sentences_set. tok s \<le> 250000"
    and "get_embeddings_for_sentences enc tok cache doc_hash sentences_set = (res, cache', batches)"
  shows "(\<forall>b\<in>set batches. b \<noteq> [] \<and> batch_tokens tok b \<le> 250000)
    \<and> greedy_batches tok batches
    \<and> prefix (concat batches) sentences_set
    \<and> ((\<forall>b\<in>set batches. \<exists>vs. enc b = Inr vs) \<longrightarrow>
          concat batches = sentences_set
          \<and> res = Inr (concat (map (encoded enc) batches))
          \<and> cache' = cache(doc_hash \<mapsto> concat (map (encoded enc) batches)))
    \<and> (\<forall>v. res = Inr v \<longrightarrow>
          concat batches = sentences_set \<and> v = concat (map (encoded enc) batches))"
proof -
  obtain r calls where loop: "embed_loop enc tok sentences_set [] [] 0 [] = (r, calls)"
    by (cases "embed_loop enc tok sentences_set [] [] 0 []") auto
  have inv: "batches_ok tok calls \<and>
    (case r of
       Inr (v', tmp', n') \<Rightarrow>
         concat calls @ tmp' = concat [] @ [] @ sentences_set \<and> n' = batch_tokens tok tmp'
         \<and> n' \<le> 250000 \<and> greedy_batches tok (calls @ [tmp']) \<and> (calls \<noteq> [] \<longrightarrow> tmp' \<noteq> [])
         \<and> (\<exists>new. calls = [] @ new \<and> v' = [] @ concat (map (encoded enc) new)
              \<and> (\<forall>b\<in>set new. \<exists>vs. enc b = Inr vs))
     | Inl e \<Rightarrow> prefix (concat calls) (concat [] @ [] @ sentences_set) \<and> greedy_batches tok calls
         \<and> calls \<noteq> [] \<and> enc (last calls) = Inl e)"
    using assms(3) by (intro embed_loop_inv [OF loop]) (simp_all add: batches_ok_def)
  show ?thesis
  proof (cases r)
    case (Inl e)
    with loop assms(1,2,4) have r: "res = Inl e" "batches = calls" "cache' = cache"
      by (simp_all add: get_embeddings_for_sentences_def)
    from inv Inl have "calls \<noteq> []" "enc (last calls) = Inl e" by simp_all
    then have "\<not> (\<forall>b\<in>set calls. \<exists>vs. enc b = Inr vs)"
      using last_in_set by fastforce
    with inv Inl r show ?thesis by (simp add: batches_ok_def)
  next
    case (Inr t)
    obtain v' tmp' n' where t: "t = (v', tmp', n')" by (cases t)
    from inv Inr t have i: "batches_ok tok calls" "concat calls @ tmp' = sentences_set"
      "n' = batch_tokens tok tmp'" "n' \<le> 250000" "greedy_batches tok (calls @ [tmp'])"
      "calls \<noteq> [] \<longrightarrow> tmp' \<noteq> []" "v' = concat (map (encoded enc) calls)"
      "\<forall>b\<in>set calls. \<exists>vs. enc b = Inr vs"
      by simp_all
    show ?thesis
    proof (cases "tmp' = []")
      case True
      with loop Inr t assms(1,2,4) have r: "res = Inr v'" "batches = calls" "cache' = cache(doc_hash \<mapsto> v')"
        by (simp_all add: get_embeddings_for_sentences_def)
      from True i(6) have "calls = []" by auto
      with r i True show ?thesis by simp
    next
      case False
      have ok: "batches_ok tok (calls @ [tmp'])"
        using i False by (simp add: batches_ok_def)
      show ?thesis
      proof (cases "enc tmp'")
        case (Inl e)
        with loop Inr t False assms(1,2,4)
        have r: "res = Inl e" "batches = calls @ [tmp']" "cache' = cache"
          by (simp_all add: get_embeddings_for_sentences_def)
        with ok i Inl show ?thesis by (auto simp: batches_ok_def)
      next
        case (Inr vs)
        with loop \<open>r = Inr t\<close> t False assms(1,2,4)
        have r: "res = Inr (v' @ vs)" "batches = calls @ [tmp']" "cache' = cache(doc_hash \<mapsto> v' @ vs)"
          by (simp_all add: get_embeddings_for_sentences_def)
        with ok i Inr show ?thesis by (auto simp: batches_ok_def encoded_def)
      qed
    qed
  qed
qed

theorem embedding_batches_partition_witness:
  "get_embeddings_for_sentences (\<lambda>b. Inr b) (\<lambda>s. 100000 * length s) Map.empty
       ''h'' [''a'', ''b'', ''c'', ''de'', ''f'', ''g'']
     = (Inr [''a'', ''b'', ''c'', ''de'', ''f'', ''g''], [''h'' \<mapsto> [''a'', ''b'', ''c'', ''de'', ''f'', ''g'']],
        [[''a'', ''b''], [''c''], [''de''], [''f'', ''g'']])
   \<and> greedy_batches (\<lambda>s. 100000 * length s) [[''a'', ''b''], [''c''], [''de''], [''f'', ''g'']]
   \<and> concat [[''a'', ''b''], [''c''], [''de''], [''f'', ''g'']] = [''a'', ''b'', ''c'', ''de'', ''f'', ''g'']"
proof -
  have run: "get_embeddings_for_sentences (\<lambda>b. Inr b) (\<lambda>s. 100000 * length s) Map.empty
       ''h'' [''a'', ''b'', ''c'', ''de'', ''f'', ''g'']
     = (Inr [''a'', ''b'', ''c'', ''de'', ''f'', ''g''], [''h'' \<mapsto> [''a'', ''b'', ''c'', ''de'', ''f'', ''g'']],
        [[''a'', ''b''], [''c''], [''de''], [''f'', ''g'']])"
    by (simp add: get_embeddings_for_sentences_def)
  have "\<forall>s\<in>set [''a'', ''b'', ''c'', ''de'', ''f'', ''g'']. 100000 * length s \<le> 250000"
    by simp
  from embedding_batches_partition [OF _ _ this run] run show ?thesis
    by simp
qed

text \<open>
  C7 as stated fails for a sentence that alone exceeds the cap: the buffer is flushed
  while it is empty, so \<open>encode_documents\<close> first gets the empty list, and the sentence is
  then sent alone, in a batch over the cap. The stand-in tokenizer charges 100000 tokens
  per character, so the three characters stand for a text of 300000 tokens; the stand-in
  service returns each sentence as its own vector.
\<close>

theorem embedding_batches_oversized_counterexample:
  "get_embeddings_for_sentences (\<lambda>b. Inr b) (\<lambda>s. 100000 * length s) Map.empty
       ''h'' [''abc'']
     = (Inr [''abc''], [''h'' \<mapsto> [''abc'']], [[], [''abc'']])
   \<and> batch_tokens (\<lambda>s. 100000 * length s) [''abc''] = 300000
   \<and> \<not> (\<forall>b \<in> set (snd (snd (get_embeddings_for_sentences (\<lambda>b. Inr b)
             (\<lambda>s. 100000 * length s) Map.empty ''h'' [''abc'']))).
          batch_tokens (\<lambda>s. 100000 * length s) b \<le> 250000)"
  by (simp add: get_embeddings_for_sentences_def batch_tokens_def)

subsection \<open>Enrichment\<close>

lemma append_subsection_contents_concat:
  "append_subsection_contents c0 subs = c0 @ concat (map (\<lambda>k. [NL, NL] @ content_of k) subs)"
  unfolding append_subsection_contents_def
  by (induction subs arbitrary: c0) simp_all

lemma enrich_enriched_from:
  "(\<forall>s'. enrich_section s ps lvl = Inr s' \<longrightarrow> list_all2 enriched_from (nodes s) (nodes s'))"
  "(\<forall>out. enrich_sections ss ps lvl = Inr out \<longrightarrow>
      list_all2 enriched_from (nodes_list ss) (nodes_list out))"
proof (induction s ps lvl and ss ps lvl rule: enrich_section_enrich_sections.induct)
  case (1 h c subs ps0 lv sid parents level)
  show ?case
  proof (intro allI impI)
    fix s' assume run: "enrich_section (Section h c subs ps0 lv sid) parents level = Inr s'"
    then obtain header raw where hc: "h = Some header" "c = Some raw"
      by (auto split: option.splits)
    show "list_all2 enriched_from (nodes (Section h c subs ps0 lv sid)) (nodes s')"
    proof (cases "\<exists>x xs. subs = Some (x # xs)")
      case True
      then obtain x xs where subs: "subs = Some (x # xs)" by blast
      with run hc obtain subs' where
        rec: "enrich_sections (x # xs) (parents @ [header]) (level + 1) = Inr subs'"
        and s': "s' = Section h (Some (append_subsection_contents (heading_content level header raw) subs'))
                   (Some subs') (Some parents) (Some level) sid"
        by (auto split: sum.splits)
      from "1.IH" [OF hc subs] rec
      have "list_all2 enriched_from (nodes_list (x # xs)) (nodes_list subs')" by blast
      with hc subs s' show ?thesis
        by (simp add: enriched_from_def append_subsection_contents_concat subsections_of_def)
    next
      case False
      with run hc have s': "s' = Section h (Some (heading_content level header raw)) subs
                         (Some parents) (Some level) sid"
        by (auto split: option.splits list.splits)
      from False have "subs = None \<or> subs = Some []"
        by (cases subs) (auto intro: list.exhaust)
      with hc s' show ?thesis
        by (auto simp: enriched_from_def subsections_of_def)
    qed
  qed
next
  case (2 parents level)
  show ?case by simp
next
  case (3 s ss parents level)
  show ?case
  proof (intro allI impI)
    fix out assume run: "enrich_sections (s # ss) parents level = Inr out"
    then obtain s' ss' where p: "enrich_section s parents level = Inr s'"
      "enrich_sections ss parents level = Inr ss'" "out = s' # ss'"
      by (auto split: sum.splits)
    from "3.IH"(1) p(1) have a: "list_all2 enriched_from (nodes s) (nodes s')" by blast
    from "3.IH"(2) [OF p(1)] p(2) have b: "list_all2 enriched_from (nodes_list ss) (nodes_list ss')"
      by blast
    from a b p(3) show "list_all2 enriched_from (nodes_list (s # ss)) (nodes_list out)"
      by (simp add: list_all2_appendI)
  qed
qed

lemma nodes_unfold: "nodes n = n # nodes_list (subsections_of n)"
  by (cases n) (simp add: subsections_of_def split: option.splits)

lemma nodes_list_set: "set (nodes_list l) = (\<Union>k\<in>set l. set (nodes k))"
  by (induction l) simp_all

lemma nodes_closed:
  "(\<forall>m\<in>set (nodes n). set (nodes m) \<subseteq> set (nodes n))"
  "(\<forall>m\<in>set (nodes_list l). set (nodes m) \<subseteq> set (nodes_list l))"
proof (induction n and l rule: nodes_nodes_list.induct)
  case (1 h c subs ps lv sid)
  show ?case
  proof
    fix m assume m: "m \<in> set (nodes (Section h c subs ps lv sid))"
    show "set (nodes m) \<subseteq> set (nodes (Section h c subs ps lv sid))"
    proof (cases "m = Section h c subs ps lv sid")
      case True
      then show ?thesis by simp
    next
      case False
      with m obtain l where l: "subs = Some l" "m \<in> set (nodes_list l)"
        by (auto split: option.splits)
      with "1.IH" have "set (nodes m) \<subseteq> set (nodes_list l)" by blast
      with l show ?thesis by auto
    qed
  qed
next
  case 2
  show ?case by simp
next
  case (3 s ss)
  then show ?case by auto
qed

lemma sublist_child:
  assumes "decomposed n" "k \<in> set (subsections_of n)"
  shows "sublist (content_of k) (content_of n)"
proof -
  from assms(2) obtain a b where ab: "subsections_of n = a @ k # b"
    by (auto simp: in_set_conv_decomp)
  from assms(1) obtain pre where
    "content_of n = pre @ concat (map (\<lambda>k. [NL, NL] @ content_of k) (subsections_of n))"
    by (auto simp: decomposed_def)
  with ab have "content_of n
      = (pre @ concat (map (\<lambda>k. [NL, NL] @ content_of k) a) @ [NL, NL]) @ content_of k
        @ concat (map (\<lambda>k. [NL, NL] @ content_of k) b)"
    by simp
  then show ?thesis unfolding sublist_def by blast
qed

lemma descendants_sublist:
  "(\<forall>m\<in>set (nodes n). decomposed m) \<longrightarrow>
     (\<forall>d\<in>set (nodes n). sublist (content_of d) (content_of n))"
  "(\<forall>m\<in>set (nodes_list l). decomposed m) \<longrightarrow>
     (\<forall>k\<in>set l. \<forall>d\<in>set (nodes k). sublist (content_of d) (content_of k))"
proof (induction n and l rule: nodes_nodes_list.induct)
  case (1 h c subs ps lv sid)
  let ?n = "Section h c subs ps lv sid"
  show ?case
  proof (intro impI ballI)
    fix d assume dec: "\<forall>m\<in>set (nodes ?n). decomposed m" and d: "d \<in> set (nodes ?n)"
    show "sublist (content_of d) (content_of ?n)"
    proof (cases "d = ?n")
      case True
      then show ?thesis by simp
    next
      case False
      with d obtain l where l: "subs = Some l" "d \<in> set (nodes_list l)"
        by (auto split: option.splits)
      then obtain k where k: "k \<in> set l" "d \<in> set (nodes k)"
        by (auto simp: nodes_list_set)
      from dec l have "\<forall>m\<in>set (nodes_list l). decomposed m" by simp
      with "1.IH" l k have 1: "sublist (content_of d) (content_of k)" by blast
      from dec have "decomposed ?n" by simp
      moreover from l k have "k \<in> set (subsections_of ?n)" by (simp add: subsections_of_def)
      ultimately have "sublist (content_of k) (content_of ?n)" by (rule sublist_child)
      with 1 show ?thesis by (rule sublist_order.order.trans)
    qed
  qed
next
  case 2
  show ?case by simp
next
  case (3 s ss)
  then show ?case by (auto simp: nodes_list_set)
qed

lemma enriched_from_decomposed: "enriched_from r n \<Longrightarrow> decomposed n"
  by (auto simp: enriched_from_def decomposed_def content_of_def split: option.splits)

lemma enrich_total:
  "(\<forall>r\<in>set (nodes s). get_header r \<noteq> None \<and> get_content r \<noteq> None)
     \<longrightarrow> (\<exists>s'. enrich_section s ps lvl = Inr s')"
  "(\<forall>r\<in>set (nodes_list ss). get_header r \<noteq> None \<and> get_content r \<noteq> None)
     \<longrightarrow> (\<exists>out. enrich_sections ss ps lvl = Inr out)"
proof (induction s ps lvl and ss ps lvl rule: enrich_section_enrich_sections.induct)
  case (1 h c subs ps0 lv sid parents level)
  show ?case
  proof
    assume wf: "\<forall>r\<in>set (nodes (Section h c subs ps0 lv sid)). get_header r \<noteq> None \<and> get_content r \<noteq> None"
    then obtain header raw where hc: "h = Some header" "c = Some raw" by auto
    show "\<exists>s'. enrich_section (Section h c subs ps0 lv sid) parents level = Inr s'"
    proof (cases "\<exists>x xs. subs = Some (x # xs)")
      case True
      then obtain x xs where subs: "subs = Some (x # xs)" by blast
      with wf have "\<forall>r\<in>set (nodes_list (x # xs)). get_header r \<noteq> None \<and> get_content r \<noteq> None"
        by simp
      with "1.IH" [OF hc subs] obtain subs' where
        "enrich_sections (x # xs) (parents @ [header]) (level + 1) = Inr subs'" by blast
      with hc subs show ?thesis by simp
    next
      case False
      with hc show ?thesis by (auto split: option.splits list.splits)
    qed
  qed
next
  case (2 parents level)
  show ?case by simp
next
  case (3 s ss parents level)
  show ?case
  proof
    assume wf: "\<forall>r\<in>set (nodes_list (s # ss)). get_header r \<noteq> None \<and> get_content r \<noteq> None"
    with "3.IH"(1) obtain s' where s': "enrich_section s parents level = Inr s'" by auto
    from wf "3.IH"(2) [OF s'] obtain ss' where "enrich_sections ss parents level = Inr ss'" by auto
    with s' show "\<exists>out. enrich_sections (s # ss) parents level = Inr out" by simp
  qed
qed

lemma example_enrich: "enrich_sections [example_raw_A] [] 1 = Inr [example_A]"
  by (simp add: example_raw_A_def example_raw_B_def example_raw_C_def example_A_def
      example_B_def example_C_def heading_content_def append_subsection_contents_def
      content_of_def numeral_3_eq_3)

text \<open>
  C8. When enrichment returns, the nodes of the result correspond one to one, in document
  order, to the nodes of the input, and the content of every enriched node is its heading
  line and its own raw content followed by the aggregated content of each of its
  subsections in their order (\<open>enriched_from\<close>); hence the aggregated content of every
  descendant, at any depth, is a contiguous part of the node's content. Enrichment does
  return when every node of the input has a header and a content.
\<close>

theorem enrich_sections_containment:
  "(enrich_sections sections ps lvl = Inr out \<longrightarrow>
      list_all2 enriched_from (nodes_list sections) (nodes_list out)
      \<and> (\<forall>n\<in>set (nodes_list out). \<forall>d\<in>set (nodes_list (subsections_of n)).
            sublist (content_of d) (content_of n)))
   \<and> ((\<forall>r\<in>set (nodes_list sections). get_header r \<noteq> None \<and> get_content r \<noteq> None)
        \<longrightarrow> (\<exists>out. enrich_sections sections ps lvl = Inr out))"
proof (intro conjI impI ballI)
  assume run: "enrich_sections sections ps lvl = Inr out"
  with enrich_enriched_from(2) show rel: "list_all2 enriched_from (nodes_list sections) (nodes_list out)"
    by blast
  fix n d assume n: "n \<in> set (nodes_list out)" and d: "d \<in> set (nodes_list (subsections_of n))"
  from rel have "\<forall>m\<in>set (nodes_list out). decomposed m"
    by (metis in_set_conv_nth list_all2_conv_all_nth enriched_from_decomposed)
  moreover from nodes_closed(2) n have "set (nodes n) \<subseteq> set (nodes_list out)" by blast
  ultimately have "\<forall>m\<in>set (nodes n). decomposed m" by blast
  with descendants_sublist(1) have "\<forall>d\<in>set (nodes n). sublist (content_of d) (content_of n)"
    by blast
  with d show "sublist (content_of d) (content_of n)" by (simp add: nodes_unfold)
next
  assume "\<forall>r\<in>set (nodes_list sections). get_header r \<noteq> None \<and> get_content r \<noteq> None"
  with enrich_total(2) show "\<exists>out. enrich_sections sections ps lvl = Inr out" by blast
qed

theorem enrich_sections_containment_witness:
  "enrich_sections [example_raw_A] [] 1 = Inr [example_A]
   \<and> nodes_list [example_A] = [example_A, example_B, example_C]
   \<and> enriched_from example_raw_B example_B
   \<and> sublist ''## B\<newline>\<newline>tb\<newline>\<newline>### C\<newline>\<newline>tc''
        ''# A\<newline>\<newline>ta\<newline>\<newline>## B\<newline>\<newline>tb\<newline>\<newline>### C\<newline>\<newline>tc''
   \<and> sublist ''### C\<newline>\<newline>tc''
        ''# A\<newline>\<newline>ta\<newline>\<newline>## B\<newline>\<newline>tb\<newline>\<newline>### C\<newline>\<newline>tc''
   \<and> sublist ''### C\<newline>\<newline>tc'' ''## B\<newline>\<newline>tb\<newline>\<newline>### C\<newline>\<newline>tc''
   \<and> (\<exists>out. enrich_sections [example_raw_A] [] 1 = Inr out)"
proof -
  note inst = enrich_sections_containment [of "[example_raw_A]" "[]" 1 "[example_A]"]
  have n: "nodes_list [example_A] = [example_A, example_B, example_C]"
    by (simp add: example_A_def example_B_def example_C_def)
  have r: "nodes_list [example_raw_A] = [example_raw_A, example_raw_B, example_raw_C]"
    by (simp add: example_raw_A_def example_raw_B_def example_raw_C_def)
  from inst example_enrich
  have rel: "list_all2 enriched_from (nodes_list [example_raw_A]) (nodes_list [example_A])"
    and sub: "\<forall>n\<in>set (nodes_list [example_A]). \<forall>d\<in>set (nodes_list (subsections_of n)).
            sublist (content_of d) (content_of n)"
    by blast+
  from rel [unfolded n r] have 1: "enriched_from example_raw_B example_B"
    by simp
  have sA: "nodes_list (subsections_of example_A) = [example_B, example_C]"
    by (simp add: example_A_def example_B_def example_C_def subsections_of_def)
  have sB: "nodes_list (subsections_of example_B) = [example_C]"
    by (simp add: example_B_def example_C_def subsections_of_def)
  from sub [unfolded n] have "\<forall>d\<in>set (nodes_list (subsections_of example_A)).
      sublist (content_of d) (content_of example_A)"
    by simp
  then have 2: "sublist (content_of example_B) (content_of example_A)"
    and 3: "sublist (content_of example_C) (content_of example_A)"
    by (simp_all add: sA)
  from sub [unfolded n] have "\<forall>d\<in>set (nodes_list (subsections_of example_B)).
      sublist (content_of d) (content_of example_B)"
    by simp
  then have 4: "sublist (content_of example_C) (content_of example_B)"
    by (simp add: sB)
  have wf: "\<forall>r\<in>set (nodes_list [example_raw_A]). get_header r \<noteq> None \<and> get_content r \<noteq> None"
    unfolding r by (simp add: example_raw_A_def example_raw_B_def example_raw_C_def)
  with inst have 5: "\<exists>out. enrich_sections [example_raw_A] [] 1 = Inr out" by blast
  from 2 3 4 have
    "sublist ''## B\<newline>\<newline>tb\<newline>\<newline>### C\<newline>\<newline>tc''
        ''# A\<newline>\<newline>ta\<newline>\<newline>## B\<newline>\<newline>tb\<newline>\<newline>### C\<newline>\<newline>tc''"
    "sublist ''### C\<newline>\<newline>tc''
        ''# A\<newline>\<newline>ta\<newline>\<newline>## B\<newline>\<newline>tb\<newline>\<newline>### C\<newline>\<newline>tc''"
    "sublist ''### C\<newline>\<newline>tc'' ''## B\<newline>\<newline>tb\<newline>\<newline>### C\<newline>\<newline>tc''"
    by (simp_all add: content_of_def example_A_def example_B_def example_C_def)
  with example_enrich n 1 5 show ?thesis by blast
qed

subsection \<open>Linearization\<close>

lemma rev_upt_Suc: "rev [0 ..< Suc n] = map Suc (rev [0 ..< n]) @ [0]"
proof -
  have "[0 ..< Suc n] = 0 # map Suc [0 ..< n]"
    by (simp add: upt_conv_Cons map_Suc_upt del: upt_Suc)
  then show ?thesis by (simp add: rev_map del: upt_Suc)
qed

lemma suffixes_nonempty: "filter (\<lambda>x. x \<noteq> []) (suffixes ps) = map (\<lambda>i. drop i ps) (rev [0 ..< length ps])"
proof (induction ps)
  case Nil
  show ?case by simp
next
  case (Cons x xs)
  have "map (\<lambda>i. drop i (x # xs)) (rev [0 ..< length (x # xs)])
      = map (\<lambda>i. drop i xs) (rev [0 ..< length xs]) @ [x # xs]"
    by (simp add: rev_upt_Suc comp_def del: upt_Suc)
  with Cons show ?case by simp
qed

lemma linearize_False_nodes:
  "linearize_section False s = Inr (nodes s)"
  "linearize_sections False l = Inr (nodes_list l)"
  by (induction s and l rule: nodes_nodes_list.induct) (simp_all split: option.splits)

lemma linearize_sections_single:
  "linearize_sections flag [s] = linearize_section flag s"
  by (simp split: sum.splits)

lemma linearize_section_unfold:
  "linearize_section flag s =
     (case (if flag then hierarchized_rows s else Inr []) of
        Inl e \<Rightarrow> Inl e
      | Inr rows \<Rightarrow>
          (case linearize_sections flag (subsections_of s) of
             Inl e \<Rightarrow> Inl e
           | Inr below \<Rightarrow> Inr (s # rows @ below)))"
  by (cases s) (simp add: subsections_of_def split: option.splits sum.splits)

lemma set_header_keeps:
  "get_content (set_header x s) = get_content s"
  "get_subsections (set_header x s) = get_subsections s"
  "get_parents (set_header x s) = get_parents s"
  "get_level (set_header x s) = get_level s"
  "get_sql_doc_id (set_header x s) = get_sql_doc_id s"
  "get_header (set_header x s) = Some x"
  by (cases s; simp)+

text \<open>
  C2 (as amended). For a node with ancestor chain \<open>[A, B]\<close> and header \<open>C\<close>, linearization
  with hierarchized titles emits three rows for the node, in this order: the node, a copy
  with header \<open>B - C\<close> and a copy with header \<open>A - B - C\<close>, then the rows of its
  subsections. In general there is one synthetic row for every non-empty suffix of the
  ancestor chain, the whole chain included, shortest suffix first. A synthetic row is the
  node with only the header replaced, so it has the node's \<open>sql_doc_id\<close> (and content,
  subsections, parents and level). With hierarchized titles disabled every node gives
  exactly one row.
\<close>

theorem linearize_hierarchized_rows:
  "(get_parents s = Some [A, B] \<and> get_header s = Some C
      \<and> linearize_sections True (subsections_of s) = Inr below
    \<longrightarrow> linearize_sections True [s]
          = Inr ([s, set_header (B @ '' - '' @ C) s, set_header (A @ '' - '' @ B @ '' - '' @ C) s]
                 @ below))
   \<and> (get_parents s = Some ps \<and> ps \<noteq> [] \<and> get_header s = Some h
        \<and> linearize_sections True (subsections_of s) = Inr below
      \<longrightarrow> linearize_sections True [s]
            = Inr (s # map (\<lambda>suffix. set_header (str_join '' - '' (suffix @ [h])) s)
                         (filter (\<lambda>suffix. suffix \<noteq> []) (suffixes ps))
                   @ below))
   \<and> linearize_sections False [s] = Inr (s # nodes_list (subsections_of s))
   \<and> linearize_sections False sections = Inr (nodes_list sections)
   \<and> get_content (set_header x s) = get_content s
   \<and> get_subsections (set_header x s) = get_subsections s
   \<and> get_parents (set_header x s) = get_parents s
   \<and> get_level (set_header x s) = get_level s
   \<and> get_sql_doc_id (set_header x s) = get_sql_doc_id s"
proof -
  have gen: "linearize_sections True [s]
            = Inr (s # map (\<lambda>suffix. set_header (str_join '' - '' (suffix @ [h])) s)
                         (filter (\<lambda>suffix. suffix \<noteq> []) (suffixes ps))
                   @ below)"
    if "get_parents s = Some ps" "ps \<noteq> []" "get_header s = Some h"
      "linearize_sections True (subsections_of s) = Inr below" for ps h below
    using that
    by (simp add: linearize_sections_single linearize_section_unfold hierarchized_rows_def
        suffixes_nonempty comp_def del: linearize_sections.simps)
  have two: "linearize_sections True [s]
          = Inr ([s, set_header (B @ '' - '' @ C) s, set_header (A @ '' - '' @ B @ '' - '' @ C) s]
                 @ below)"
    if "get_parents s = Some [A, B]" "get_header s = Some C"
      "linearize_sections True (subsections_of s) = Inr below"
    using gen [OF that(1) _ that(2,3)] by simp
  have f: "linearize_sections False [s] = Inr (s # nodes_list (subsections_of s))"
    by (simp add: linearize_False_nodes(2) nodes_unfold del: linearize_sections.simps nodes_list.simps)
       (simp add: nodes_unfold)
  from gen two f show ?thesis
    by (simp add: set_header_keeps linearize_False_nodes(2) del: linearize_sections.simps)
qed

theorem linearize_hierarchized_rows_witness:
  "get_parents example_C = Some [''A'', ''B''] \<and> get_header example_C = Some ''C''
   \<and> linearize_sections True (subsections_of example_C) = Inr []
   \<and> linearize_sections True [example_C]
       = Inr [example_C, set_header ''B - C'' example_C, set_header ''A - B - C'' example_C]
   \<and> linearize_sections False [example_C] = Inr [example_C]
   \<and> get_sql_doc_id (set_header ''A - B - C'' example_C) = get_sql_doc_id example_C"
proof -
  have p: "get_parents example_C = Some [''A'', ''B'']" "get_header example_C = Some ''C''"
    "linearize_sections True (subsections_of example_C) = Inr []"
    by (simp_all add: example_C_def subsections_of_def)
  have n: "nodes_list (subsections_of example_C) = []"
    by (simp add: example_C_def subsections_of_def)
  from linearize_hierarchized_rows [of example_C "''A''" "''B''" "''C''" "[]"] p n
  show ?thesis by simp
qed

text \<open>
  C2 as stated gives a rule that the code does not follow. One row for every proper
  non-empty suffix of \<open>[A, B]\<close> would be the single header \<open>B - C\<close>; the code also emits
  \<open>A - B - C\<close>, for the whole chain. And the order is not longest suffix first: \<open>B - C\<close>
  comes before \<open>A - B - C\<close>.
\<close>

theorem linearize_spec_rule_counterexample:
  "hierarchized_rows example_C
     = Inr [set_header ''B - C'' example_C, set_header ''A - B - C'' example_C]
   \<and> map get_header [set_header ''B - C'' example_C, set_header ''A - B - C'' example_C]
     = [Some ''B - C'', Some ''A - B - C'']
   \<and> spec_hierarchized_headers [''A'', ''B''] ''C'' = [''B - C'']
   \<and> [''B - C'', ''A - B - C''] \<noteq> spec_hierarchized_headers [''A'', ''B''] ''C''
   \<and> [''B - C'', ''A - B - C'']
     \<noteq> map (\<lambda>suffix. str_join '' - '' (suffix @ [''C'']))
           (rev (filter (\<lambda>suffix. suffix \<noteq> []) (suffixes [''A'', ''B''])))"
  by (simp add: hierarchized_rows_def example_C_def spec_hierarchized_headers_def
      upt_conv_Cons)

subsection \<open>The retry loop and the tree cache\<close>

lemma split_attempts_calls:
  "split_attempts llm search loads prompt n errors log = (r, log') \<Longrightarrow>
   \<exists>new. log' = log @ new \<and> length new \<le> n
     \<and> (0 < n \<longrightarrow> new \<noteq> [] \<and> hd new = (''user'', prompt) # errors)
     \<and> (\<forall>j. Suc j < length new \<longrightarrow>
           (\<exists>msg. parse_llm_response_to_json_list search loads (llm (log @ take j new) (new ! j))
                    = Inl (JSONDecodeError msg)
                 \<and> new ! Suc j = new ! j @ [json_error_turn msg]))
     \<and> (\<forall>resp. r = Inr resp \<longrightarrow>
           parse_llm_response_to_json_list search loads (llm (log @ butlast new) (last new))
             = Inr resp)
     \<and> (\<forall>e. r = Inl e \<longrightarrow>
           (length new = n \<and> e = retries_exhausted
            \<and> (0 < n \<longrightarrow> (\<exists>msg. parse_llm_response_to_json_list search loads
                      (llm (log @ butlast new) (last new)) = Inl (JSONDecodeError msg))))
           \<or> (new \<noteq> [] \<and> (\<forall>msg. e \<noteq> JSONDecodeError msg)
               \<and> parse_llm_response_to_json_list search loads (llm (log @ butlast new) (last new))
                  = Inl e))"
proof (induction n arbitrary: errors log)
  case 0
  then show ?case by auto
next
  case (Suc n)
  let ?m = "(''user'', prompt) # errors"
  let ?P = "parse_llm_response_to_json_list search loads"
  show ?case
  proof (cases "?P (llm log ?m)")
    case (Inr resp)
    with Suc.prems have "r = Inr resp" "log' = log @ [?m]"
      by (simp_all add: complete_messages_def)
    with Inr show ?thesis by (intro exI [of _ "[?m]"]) simp
  next
    case (Inl e)
    show ?thesis
    proof (cases "\<exists>msg. e = JSONDecodeError msg")
      case False
      with Inl Suc.prems have "r = Inl e" "log' = log @ [?m]"
        by (cases e; simp add: complete_messages_def)+
      with Inl False show ?thesis by (intro exI [of _ "[?m]"]) simp
    next
      case True
      then obtain msg where e: "e = JSONDecodeError msg" by blast
      with Inl Suc.prems
      have run: "split_attempts llm search loads prompt n (errors @ [json_error_turn msg]) (log @ [?m])
                 = (r, log')"
        by (simp add: complete_messages_def)
      from Suc.IH [OF run] obtain new where new:
        "log' = (log @ [?m]) @ new" "length new \<le> n"
        "0 < n \<longrightarrow> new \<noteq> [] \<and> hd new = (''user'', prompt) # errors @ [json_error_turn msg]"
        "\<forall>j. Suc j < length new \<longrightarrow>
           (\<exists>msg. ?P (llm ((log @ [?m]) @ take j new) (new ! j)) = Inl (JSONDecodeError msg)
                 \<and> new ! Suc j = new ! j @ [json_error_turn msg])"
        "\<forall>resp. r = Inr resp \<longrightarrow> ?P (llm ((log @ [?m]) @ butlast new) (last new)) = Inr resp"
        "\<forall>e. r = Inl e \<longrightarrow>
           (length new = n \<and> e = retries_exhausted
            \<and> (0 < n \<longrightarrow> (\<exists>msg. ?P (llm ((log @ [?m]) @ butlast new) (last new)) = Inl (JSONDecodeError msg))))
           \<or> (new \<noteq> [] \<and> (\<forall>msg. e \<noteq> JSONDecodeError msg)
               \<and> ?P (llm ((log @ [?m]) @ butlast new) (last new)) = Inl e)"
        by auto
      have n0: "n = 0 \<Longrightarrow> new = []" using new(2) by simp
      have chain: "\<exists>msg'. ?P (llm (log @ take j (?m # new)) ((?m # new) ! j)) = Inl (JSONDecodeError msg')
                 \<and> (?m # new) ! Suc j = (?m # new) ! j @ [json_error_turn msg']"
        if "Suc j < length (?m # new)" for j
      proof (cases j)
        case 0
        from that have "new \<noteq> []" by auto
        with new(2) have "0 < n" by (cases n) auto
        with new(3) have "hd new = ?m @ [json_error_turn msg]" by simp
        with \<open>new \<noteq> []\<close> have "new ! 0 = ?m @ [json_error_turn msg]" by (simp add: hd_conv_nth)
        with 0 Inl e show ?thesis by simp
      next
        case (Suc i)
        with that have "Suc i < length new" by simp
        with new(4) Suc show ?thesis by simp
      qed
      show ?thesis
      proof (intro exI [of _ "?m # new"] conjI allI impI)
        show "log' = log @ ?m # new" using new(1) by simp
        show "length (?m # new) \<le> Suc n" using new(2) by simp
        show "?m # new \<noteq> []" by simp
        show "hd (?m # new) = ?m" by simp
      next
        fix j assume "Suc j < length (?m # new)"
        then show "\<exists>msg'. ?P (llm (log @ take j (?m # new)) ((?m # new) ! j)) = Inl (JSONDecodeError msg')
                 \<and> (?m # new) ! Suc j = (?m # new) ! j @ [json_error_turn msg']"
          by (rule chain)
      next
        fix resp assume r: "r = Inr resp"
        with run have "0 < n" by (cases n) auto
        with new(3) have "new \<noteq> []" by simp
        with r new(5) show "?P (llm (log @ butlast (?m # new)) (last (?m # new))) = Inr resp"
          by simp
      next
        fix e' assume r: "r = Inl e'"
        show "(length (?m # new) = Suc n \<and> e' = retries_exhausted
            \<and> (0 < Suc n \<longrightarrow> (\<exists>msg. ?P (llm (log @ butlast (?m # new)) (last (?m # new))) = Inl (JSONDecodeError msg))))
           \<or> (?m # new \<noteq> [] \<and> (\<forall>msg. e' \<noteq> JSONDecodeError msg)
               \<and> ?P (llm (log @ butlast (?m # new)) (last (?m # new))) = Inl e')"
        proof (cases "new = []")
          case True
          with new(3) have "n = 0" by auto
          with r new(6) True Inl e show ?thesis by auto
        next
          case False
          with r new(6) show ?thesis by (cases n) auto
        qed
      qed
    qed
  qed
qed

lemma parse_errors:
  "parse_llm_response_to_json_list search loads response = Inl e \<Longrightarrow>
   e = IndexError \<or> (\<exists>msg. e = JSONDecodeError msg)"
  by (auto simp: parse_llm_response_to_json_list_def split: list.splits sum.splits)

lemma split_attempts_5:
  "split_attempts llm search loads prompt 5 errors log
   = split_attempts llm search loads prompt (Suc (Suc (Suc (Suc (Suc 0))))) errors log"
  by (simp add: numeral_eq_Suc)

lemma split_attempts_at_most_5_calls:
  "split_attempts llm search loads prompt 5 [] log = (r, log') \<Longrightarrow>
   \<exists>new. log' = log @ new \<and> 1 \<le> length new \<and> length new \<le> 5
     \<and> hd new = [(''user'', prompt)]
     \<and> (r = Inl retries_exhausted \<longrightarrow> length new = 5)"
  by (drule split_attempts_calls) (auto simp: Suc_le_eq retries_exhausted_def dest: parse_errors)

lemma split_content_with_llm_cached:
  assumes "cache (resolve_hash H content doc_hash) = Some tree" and "tree \<noteq> []"
  shows "split_content_with_llm H tok search loads llm cache log content title doc_hash
         = (Inr (resolve_hash H content doc_hash, tree), cache, log)"
  using assms by (simp add: split_content_with_llm_def get_cached_content_json_tree_def)

lemma split_content_with_llm_result:
  assumes "split_content_with_llm H tok search loads llm cache log content title doc_hash
           = (Inr (hash, tree), cache', log')"
  shows "hash = resolve_hash H content doc_hash
    \<and> ((cache hash = Some tree \<and> tree \<noteq> [] \<and> cache' = cache \<and> log' = log)
       \<or> ((cache hash = None \<or> cache hash = Some []) \<and> cache' = cache(hash \<mapsto> tree)
          \<and> (\<exists>new resp. log' = log @ new \<and> 1 \<le> length new \<and> length new \<le> 5
                \<and> parse_llm_response_to_json_list search loads (llm (log @ butlast new) (last new))
                    = Inr resp
                \<and> enrich_sections resp [] 1 = Inr tree)))"
proof (cases "cache (resolve_hash H content doc_hash) \<noteq> None
              \<and> cache (resolve_hash H content doc_hash) \<noteq> Some []")
  case True
  with assms show ?thesis
    by (auto simp: split_content_with_llm_def get_cached_content_json_tree_def)
next
  case False
  let ?p = "split_prompt title content"
  obtain r l where run: "split_attempts llm search loads ?p 5 [] log = (r, l)"
    by (cases "split_attempts llm search loads ?p 5 [] log") auto
  from False assms run obtain resp where
    r: "r = Inr resp" "enrich_sections resp [] 1 = Inr tree" "l = log'"
    "hash = resolve_hash H content doc_hash" "cache' = cache(hash \<mapsto> tree)"
    by (auto simp: split_content_with_llm_def get_cached_content_json_tree_def Let_def
        enrich_sections_top_def save_in_cache_content_json_tree_def
        split: if_splits sum.splits)
  from split_attempts_calls [OF run] r obtain new where
    "log' = log @ new" "new \<noteq> []" "length new \<le> 5"
    "parse_llm_response_to_json_list search loads (llm (log @ butlast new) (last new)) = Inr resp"
    by auto
  moreover then have "1 \<le> length new" by (cases new) auto
  ultimately show ?thesis using False r by auto
qed

lemma split_content_with_llm_second_run:
  assumes "split_content_with_llm H tok search loads llm cache log content title doc_hash
           = (Inr (hash, tree), cache', log')"
    and "tree \<noteq> []"
  shows "split_content_with_llm H tok search loads llm cache' log' content title doc_hash
         = (Inr (hash, tree), cache', log')"
proof -
  from split_content_with_llm_result [OF assms(1)]
  have "hash = resolve_hash H content doc_hash" "cache' hash = Some tree" by auto
  with assms(2) show ?thesis by (simp add: split_content_with_llm_cached)
qed

lemma split_attempts_fifth_response_example:
  "split_attempts (\<lambda>log messages. if length log < 4 then ''[oops'' else ''[]'')
       (\<lambda>response. [[response]])
       (\<lambda>text. if text = ''[]'' then Inr [] else Inl ''Expecting value'')
       prompt 5 [] []
   = (Inr [],
      [[(''user'', prompt)],
       [(''user'', prompt), json_error_turn ''Expecting value''],
       [(''user'', prompt), json_error_turn ''Expecting value'', json_error_turn ''Expecting value''],
       [(''user'', prompt), json_error_turn ''Expecting value'', json_error_turn ''Expecting value'',
        json_error_turn ''Expecting value''],
       [(''user'', prompt), json_error_turn ''Expecting value'', json_error_turn ''Expecting value'',
        json_error_turn ''Expecting value'', json_error_turn ''Expecting value'']])"
  by (simp add: split_attempts_5 complete_messages_def parse_llm_response_to_json_list_def)

lemma split_attempts_exhausted_example:
  "split_attempts (\<lambda>log messages. ''[oops'') (\<lambda>response. [[response]])
       (\<lambda>text. Inl ''Expecting value'') prompt 5 [] []
   = (Inl retries_exhausted,
      [[(''user'', prompt)],
       [(''user'', prompt), json_error_turn ''Expecting value''],
       [(''user'', prompt), json_error_turn ''Expecting value'', json_error_turn ''Expecting value''],
       [(''user'', prompt), json_error_turn ''Expecting value'', json_error_turn ''Expecting value'',
        json_error_turn ''Expecting value''],
       [(''user'', prompt), json_error_turn ''Expecting value'', json_error_turn ''Expecting value'',
        json_error_turn ''Expecting value'', json_error_turn ''Expecting value'']])"
  by (simp add: split_attempts_5 complete_messages_def parse_llm_response_to_json_list_def)

text \<open>
  C1. The retry protocol is as the claim says when \<open>json.loads\<close> rejects the array that was
  found (\<open>split_attempts_calls\<close> and the two examples above: at most 5 calls, each call
  sends the messages of the one before and the error of its response, exhaustion raises).
  The claim fails for a response in which no balanced array is found, such as an array
  cut off before its closing bracket: the index \<open>[0][0]\<close> raises \<open>IndexError\<close>, which
  the handler does not catch, so the function raises after the first call, without a
  corrective turn and without a retry.
\<close>

theorem split_content_with_llm_no_array_not_retried:
  assumes "cache (resolve_hash H content doc_hash) = None" and "content \<noteq> []"
    and "tok (split_prompt title content) \<le> 100000"
    and "search (llm log [(''user'', split_prompt title content)]) = []"
  shows "split_content_with_llm H tok search loads llm cache log content title doc_hash
         = (Inl IndexError, cache, log @ [[(''user'', split_prompt title content)]])"
  using assms
  by (simp add: split_content_with_llm_def get_cached_content_json_tree_def Let_def
      split_attempts_5 complete_messages_def parse_llm_response_to_json_list_def)

theorem split_content_with_llm_no_array_not_retried_witness:
  "split_content_with_llm (\<lambda>s. s) (\<lambda>s. 0) (\<lambda>response. []) (\<lambda>text. Inr [])
       (\<lambda>log messages. ''[1, 2'') Map.empty [] ''article'' None None
   = (Inl IndexError, Map.empty, [[(''user'', split_prompt None ''article'')]])"
  using split_content_with_llm_no_array_not_retried [of Map.empty "\<lambda>s. s" "''article''" None
      "\<lambda>s. 0" None "\<lambda>response. []" "\<lambda>log messages. ''[1, 2''" "[]" "\<lambda>text. Inr []"]
  by simp

text \<open>
  C3. A second call returns the cached tree and leaves the completion service alone when
  the first call returned a tree that is not empty (\<open>split_content_with_llm_second_run\<close>
  above). The claim fails when the cached tree is the empty list, which is what the
  first call stores when the service answers \<open>[]\<close>: \<open>if res:\<close> takes the empty list for a
  miss, and the completion service is called again.
\<close>

theorem split_content_with_llm_empty_tree_called_again:
  assumes "cache (resolve_hash H content doc_hash) = Some []" and "content \<noteq> []"
    and "tok (split_prompt title content) \<le> 100000"
    and "split_content_with_llm H tok search loads llm cache log content title doc_hash
         = (r, cache', log')"
  shows "\<exists>new. log' = log @ new \<and> 1 \<le> length new
           \<and> hd new = [(''user'', split_prompt title content)]"
proof -
  let ?p = "split_prompt title content"
  obtain r0 l where run: "split_attempts llm search loads ?p 5 [] log = (r0, l)"
    by (cases "split_attempts llm search loads ?p 5 [] log") auto
  with assms have "l = log'"
    by (auto simp: split_content_with_llm_def get_cached_content_json_tree_def Let_def
        split: sum.splits)
  with split_attempts_at_most_5_calls [OF run] show ?thesis by auto
qed

theorem split_content_with_llm_empty_tree_called_again_witness:
  "split_content_with_llm (\<lambda>s. s) (\<lambda>s. 0) (\<lambda>response. [[''[]'']]) (\<lambda>text. Inr [])
       (\<lambda>log messages. ''[]'') Map.empty [] ''article'' None None
     = (Inr (''article'', []), [''article'' \<mapsto> []], [[(''user'', split_prompt None ''article'')]])
   \<and> split_content_with_llm (\<lambda>s. s) (\<lambda>s. 0) (\<lambda>response. [[''[]'']]) (\<lambda>text. Inr [])
       (\<lambda>log messages. ''[]'') [''article'' \<mapsto> []] [[(''user'', split_prompt None ''article'')]]
       ''article'' None None
     = (Inr (''article'', []), [''article'' \<mapsto> []],
        [[(''user'', split_prompt None ''article'')], [(''user'', split_prompt None ''article'')]])"
proof -
  have h: "resolve_hash (\<lambda>s. s) ''article'' None = ''article''"
    by (simp add: resolve_hash_def get_doc_hash_def rgx_space_sub_def)
  have 1: "split_content_with_llm (\<lambda>s. s) (\<lambda>s. 0) (\<lambda>response. [[''[]'']]) (\<lambda>text. Inr [])
       (\<lambda>log messages. ''[]'') Map.empty [] ''article'' None None
     = (Inr (''article'', []), [''article'' \<mapsto> []], [[(''user'', split_prompt None ''article'')]])"
    by (simp add: split_content_with_llm_def get_cached_content_json_tree_def Let_def h
      split_attempts_5 complete_messages_def parse_llm_response_to_json_list_def
      enrich_sections_top_def save_in_cache_content_json_tree_def)
  have 2: "split_content_with_llm (\<lambda>s. s) (\<lambda>s. 0) (\<lambda>response. [[''[]'']]) (\<lambda>text. Inr [])
       (\<lambda>log messages. ''[]'') [''article'' \<mapsto> []] [[(''user'', split_prompt None ''article'')]]
       ''article'' None None
     = (Inr (''article'', []), [''article'' \<mapsto> []],
        [[(''user'', split_prompt None ''article'')], [(''user'', split_prompt None ''article'')]])"
    by (simp add: split_content_with_llm_def get_cached_content_json_tree_def Let_def h
      split_attempts_5 complete_messages_def parse_llm_response_to_json_list_def
      enrich_sections_top_def save_in_cache_content_json_tree_def)
  from split_content_with_llm_empty_tree_called_again [OF _ _ _ 2] 1 2 show ?thesis
    by simp
qed


subsection \<open>The mode dispatcher\<close>

text \<open>
  C10. \<open>_process_section_matchs\<close> raises \<open>IndexError\<close> exactly when the match list is
  empty and the mode is \<open>FIRST_BEST_RAW\<close> or \<open>FIRST_BEST_SUMMARY\<close> (both read
  \<open>matchs[0]\<close>, before any service is called), and raises nothing else. On the empty list
  \<open>TOP_K_RAW\<close> formats the empty slice and the other three \<open>TOP_K\<close> modes send the formatted
  empty slice to the completion service; on a list that is not empty the two
  \<open>FIRST_BEST\<close> modes use its first element.
\<close>

theorem process_section_matchs_index_error:
  "(fst (process_section_matchs llm get_content_from_id work_title log matchs mode top_k question)
      = Inl IndexError)
     = (matchs = [] \<and> (mode = FIRST_BEST_RAW \<or> mode = FIRST_BEST_SUMMARY))
   \<and> (\<forall>e. fst (process_section_matchs llm get_content_from_id work_title log matchs mode top_k
                 question) = Inl e \<longrightarrow> e = IndexError)
   \<and> process_section_matchs llm get_content_from_id work_title log [] FIRST_BEST_RAW top_k question
       = (Inl IndexError, log)
   \<and> process_section_matchs llm get_content_from_id work_title log [] FIRST_BEST_SUMMARY top_k question
       = (Inl IndexError, log)
   \<and> process_section_matchs llm get_content_from_id work_title log [] TOP_K_RAW top_k question
       = (Inr (format_context_entries []), log)
   \<and> process_section_matchs llm get_content_from_id work_title log [] TOP_K_SUMMARY top_k question
       = (Inr (llm log [(''user'', summary_msg_content [])]),
          log @ [[(''user'', summary_msg_content [])]])
   \<and> process_section_matchs llm get_content_from_id work_title log [] TOP_K_COMBINE top_k question
       = (Inr (llm log [(''user'', combine_msg_content [] question)]),
          log @ [[(''user'', combine_msg_content [] question)]])
   \<and> process_section_matchs llm get_content_from_id work_title log [] TOP_K_RESTRANSCRIPT top_k question
       = (Inr (llm log [(''user'', retranscript_msg_content [] question)]),
          log @ [[(''user'', retranscript_msg_content [] question)]])
   \<and> process_section_matchs llm get_content_from_id work_title log (m # ms) FIRST_BEST_RAW top_k question
       = (Inr (get_content_from_id work_title (match_sql_doc_id m)), log)
   \<and> process_section_matchs llm get_content_from_id work_title log (m # ms) FIRST_BEST_SUMMARY top_k question
       = (Inr (llm log [(''user'', summary_msg_content [section_match_to_context_entry m])]),
          log @ [[(''user'', summary_msg_content [section_match_to_context_entry m])]])"
  by (cases mode; cases matchs)
     (simp_all add: process_section_matchs_def ask_def complete_messages_def py_slice_def
       slice_index_def)

theorem process_section_matchs_index_error_witness:
  "fst (process_section_matchs (\<lambda>log messages. ''reply'') (\<lambda>work_title doc_id. ''stored '' @ doc_id)
          ''w'' [] [] FIRST_BEST_RAW 5 None) = Inl IndexError
   \<and> fst (process_section_matchs (\<lambda>log messages. ''reply'') (\<lambda>work_title doc_id. ''stored '' @ doc_id)
          ''w'' [] [] FIRST_BEST_SUMMARY 5 None) = Inl IndexError
   \<and> fst (process_section_matchs (\<lambda>log messages. ''reply'') (\<lambda>work_title doc_id. ''stored '' @ doc_id)
          ''w'' [] [example_match] FIRST_BEST_RAW 5 None) = Inr ''stored id1''
   \<and> fst (process_section_matchs (\<lambda>log messages. ''reply'') (\<lambda>work_title doc_id. ''stored '' @ doc_id)
          ''w'' [] [] TOP_K_RAW 5 None) = Inr ''++++++++++++++++\<newline>\<newline>++++++++++++++++''
   \<and> fst (process_section_matchs (\<lambda>log messages. ''reply'') (\<lambda>work_title doc_id. ''stored '' @ doc_id)
          ''w'' [] [] TOP_K_COMBINE 5 None) = Inr ''reply''"
proof -
  let ?P = "process_section_matchs (\<lambda>log messages. ''reply'')
              (\<lambda>work_title doc_id. ''stored '' @ doc_id) ''w'' []"
  have 1: "fst (?P [] FIRST_BEST_RAW 5 None) = Inl IndexError"
    using process_section_matchs_index_error [of "\<lambda>log messages. ''reply''"
        "\<lambda>work_title doc_id. ''stored '' @ doc_id" "''w''" "[]" "[]" FIRST_BEST_RAW 5 None]
    by simp
  have 2: "fst (?P [] FIRST_BEST_SUMMARY 5 None) = Inl IndexError"
    using process_section_matchs_index_error [of "\<lambda>log messages. ''reply''"
        "\<lambda>work_title doc_id. ''stored '' @ doc_id" "''w''" "[]" "[]" FIRST_BEST_SUMMARY 5 None]
    by simp
  have 3: "fst (?P [example_match] FIRST_BEST_RAW 5 None) = Inr ''stored id1''"
    using process_section_matchs_index_error [of "\<lambda>log messages. ''reply''"
        "\<lambda>work_title doc_id. ''stored '' @ doc_id" "''w''" "[]" "[example_match]" FIRST_BEST_RAW
        5 None example_match "[]"]
    by (simp add: example_match_def)
  have 4: "fst (?P [] TOP_K_RAW 5 None) = Inr ''++++++++++++++++\<newline>\<newline>++++++++++++++++''"
    using process_section_matchs_index_error [of "\<lambda>log messages. ''reply''"
        "\<lambda>work_title doc_id. ''stored '' @ doc_id" "''w''" "[]" "[]" TOP_K_RAW 5 None]
    by (simp add: format_context_entries_def)
  have 5: "fst (?P [] TOP_K_COMBINE 5 None) = Inr ''reply''"
    using process_section_matchs_index_error [of "\<lambda>log messages. ''reply''"
        "\<lambda>work_title doc_id. ''stored '' @ doc_id" "''w''" "[]" "[]" TOP_K_COMBINE 5 None]
    by simp
  from 1 2 3 4 5 show ?thesis by simp
qed

subsection \<open>The strategy engine\<close>

lemma classification_trace:
  "classification M trace question mode number_of_sentences = (r, trace1) \<Longrightarrow>
   trace1 = trace \<or> trace1 = trace @ [Classify question]"
  by (auto simp: classification_def Let_def split: option.splits sum.splits)

text \<open>
  C4 (as amended). A question classified ONE takes the direct path only: the result is that
  of \<open>get_direct_answer\<close> and no section retrieval is invoked. A question classified FEW
  whose direct answer is rejected by the self-verification goes on to the section
  retrieval, with the caller's mode when one is given, and otherwise with \<open>TOP_K_RAW\<close> when
  \<open>return_raw\<close> is set and \<open>TOP_K_COMBINE\<close> when it is not. A value other than ONE, FEW and
  TOO_MANY raises a \<open>ValueError\<close>. (The value is the argument \<open>number_of_sentences\<close>, or the
  uppercased answer of the classifier.)
\<close>

theorem get_answer_cascade:
  "(classification M trace question mode number_of_sentences = (Inr (''ONE'', kind), trace1) \<longrightarrow>
      get_answer M trace question top_k return_raw mode number_of_sentences
        = (get_direct_answer M trace1 question, trace1 @ [DirectAnswer question])
      \<and> filter is_section_retrieval
            (snd (get_answer M trace question top_k return_raw mode number_of_sentences))
          = filter is_section_retrieval trace)
   \<and> (classification M trace question mode number_of_sentences = (Inr (''FEW'', kind), trace1)
        \<and> get_direct_answer M trace1 question = Inr first_answer
        \<and> answer_is_correct M (trace1 @ [DirectAnswer question]) question first_answer = Inr False
      \<longrightarrow> get_answer M trace question top_k return_raw mode number_of_sentences
          = (get_section_as_answer_from_question M
               (trace1 @ [DirectAnswer question, CheckAnswer question first_answer])
               question (few_mode mode return_raw) top_k,
             trace1 @ [DirectAnswer question, CheckAnswer question first_answer,
                       SectionRetrieval question (few_mode mode return_raw) top_k]))
   \<and> few_mode None True = TOP_K_RAW
   \<and> few_mode None False = TOP_K_COMBINE
   \<and> few_mode (Some m) return_raw = m
   \<and> (classification M trace question mode number_of_sentences = (Inr (n, kind), trace1)
        \<and> n \<noteq> ''ONE'' \<and> n \<noteq> ''FEW'' \<and> n \<noteq> ''TOO_MANY''
      \<longrightarrow> get_answer M trace question top_k return_raw mode number_of_sentences
          = (Inl (wrong_number_of_sentences n), trace1))"
proof (intro conjI impI)
  assume c: "classification M trace question mode number_of_sentences = (Inr (''ONE'', kind), trace1)"
  then show g: "get_answer M trace question top_k return_raw mode number_of_sentences
        = (get_direct_answer M trace1 question, trace1 @ [DirectAnswer question])"
    by (simp add: get_answer_def)
  from classification_trace [OF c]
  have "filter is_section_retrieval trace1 = filter is_section_retrieval trace"
    by (auto simp: is_section_retrieval_def)
  with g show "filter is_section_retrieval
            (snd (get_answer M trace question top_k return_raw mode number_of_sentences))
          = filter is_section_retrieval trace"
    by (simp add: is_section_retrieval_def)
next
  assume "classification M trace question mode number_of_sentences = (Inr (''FEW'', kind), trace1)
        \<and> get_direct_answer M trace1 question = Inr first_answer
        \<and> answer_is_correct M (trace1 @ [DirectAnswer question]) question first_answer = Inr False"
  then show "get_answer M trace question top_k return_raw mode number_of_sentences
          = (get_section_as_answer_from_question M
               (trace1 @ [DirectAnswer question, CheckAnswer question first_answer])
               question (few_mode mode return_raw) top_k,
             trace1 @ [DirectAnswer question, CheckAnswer question first_answer,
                       SectionRetrieval question (few_mode mode return_raw) top_k])"
    by (simp add: get_answer_def Let_def)
next
  assume "classification M trace question mode number_of_sentences = (Inr (n, kind), trace1)
        \<and> n \<noteq> ''ONE'' \<and> n \<noteq> ''FEW'' \<and> n \<noteq> ''TOO_MANY''"
  then show "get_answer M trace question top_k return_raw mode number_of_sentences
          = (Inl (wrong_number_of_sentences n), trace1)"
    by (simp add: get_answer_def)
qed (simp_all add: few_mode_def)

theorem get_answer_cascade_witness:
  "get_answer example_methods [] ''q'' 5 False None (Some ''ONE'')
     = (Inr ''draft'', [DirectAnswer ''q''])
   \<and> filter is_section_retrieval
        (snd (get_answer example_methods [] ''q'' 5 False None (Some ''ONE''))) = []
   \<and> get_answer example_methods [] ''q'' 5 False None None
     = (Inr ''sections'',
        [Classify ''q'', DirectAnswer ''q'', CheckAnswer ''q'' ''draft'',
         SectionRetrieval ''q'' TOP_K_COMBINE 5])
   \<and> get_answer example_methods [] ''q'' 5 True None (Some ''FEW'')
     = (Inr ''sections'',
        [DirectAnswer ''q'', CheckAnswer ''q'' ''draft'', SectionRetrieval ''q'' TOP_K_RAW 5])
   \<and> get_answer example_methods [] ''q'' 5 False (Some FIRST_BEST_RAW) (Some ''FEW'')
     = (Inr ''sections'',
        [DirectAnswer ''q'', CheckAnswer ''q'' ''draft'', SectionRetrieval ''q'' FIRST_BEST_RAW 5])
   \<and> get_answer example_methods [] ''q'' 5 False None (Some ''MANY'')
     = (Inl (wrong_number_of_sentences ''MANY''), [])"
proof -
  have c1: "classification example_methods [] ''q'' None (Some ''ONE'') = (Inr (''ONE'', None), [])"
    by (simp add: classification_def)
  have c2: "classification example_methods [] ''q'' None None = (Inr (''FEW'', None), [Classify ''q''])"
    by (simp add: classification_def example_methods_def str_upper_def upper_char_def
        ascii_lowercase_def ascii_uppercase_def)
  have c3: "classification example_methods [] ''q'' None (Some ''FEW'') = (Inr (''FEW'', None), [])"
    by (simp add: classification_def)
  have c4: "classification example_methods [] ''q'' (Some FIRST_BEST_RAW) (Some ''FEW'')
            = (Inr (''FEW'', None), [])"
    by (simp add: classification_def)
  have c5: "classification example_methods [] ''q'' None (Some ''MANY'') = (Inr (''MANY'', None), [])"
    by (simp add: classification_def)
  have d: "get_direct_answer example_methods t ''q'' = Inr ''draft''"
    "answer_is_correct example_methods t ''q'' ''draft'' = Inr False"
    "get_section_as_answer_from_question example_methods t ''q'' m k = Inr ''sections''" for t m k
    by (simp_all add: example_methods_def)
  have 1: "get_answer example_methods [] ''q'' 5 False None (Some ''ONE'')
     = (Inr ''draft'', [DirectAnswer ''q''])"
    "filter is_section_retrieval
        (snd (get_answer example_methods [] ''q'' 5 False None (Some ''ONE''))) = []"
    using get_answer_cascade [of example_methods "[]" "''q''" None "Some ''ONE''" None "[]"
        5 False] c1 d
    by (simp_all add: is_section_retrieval_def)
  have 2: "get_answer example_methods [] ''q'' 5 False None None
     = (Inr ''sections'',
        [Classify ''q'', DirectAnswer ''q'', CheckAnswer ''q'' ''draft'',
         SectionRetrieval ''q'' TOP_K_COMBINE 5])"
    using get_answer_cascade [of example_methods "[]" "''q''" None None None "[Classify ''q'']"
        5 False "''draft''"] c2 d
    by simp
  have 3: "get_answer example_methods [] ''q'' 5 True None (Some ''FEW'')
     = (Inr ''sections'',
        [DirectAnswer ''q'', CheckAnswer ''q'' ''draft'', SectionRetrieval ''q'' TOP_K_RAW 5])"
    using get_answer_cascade [of example_methods "[]" "''q''" None "Some ''FEW''" None "[]"
        5 True "''draft''"] c3 d
    by simp
  have 4: "get_answer example_methods [] ''q'' 5 False (Some FIRST_BEST_RAW) (Some ''FEW'')
     = (Inr ''sections'',
        [DirectAnswer ''q'', CheckAnswer ''q'' ''draft'', SectionRetrieval ''q'' FIRST_BEST_RAW 5])"
    using get_answer_cascade [of example_methods "[]" "''q''" "Some FIRST_BEST_RAW" "Some ''FEW''"
        None "[]" 5 False "''draft''" FIRST_BEST_RAW] c4 d
    by simp
  have 5: "get_answer example_methods [] ''q'' 5 False None (Some ''MANY'')
     = (Inl (wrong_number_of_sentences ''MANY''), [])"
    using get_answer_cascade [of example_methods "[]" "''q''" None "Some ''MANY''" None "[]"
        5 False _ _ "''MANY''"] c5
    by simp
  from 1 2 3 4 5 show ?thesis by simp
qed

text \<open>
  C4 as stated fails when the caller gives a mode and sets \<open>return_raw\<close>: the claim says
  \<open>TOP_K_RAW\<close>, the code keeps the caller's mode (\<open>return_raw\<close> is looked at only under
  \<open>if not mode\<close>).
\<close>

theorem get_answer_explicit_mode_counterexample:
  "get_answer example_methods [] ''q'' 5 True (Some TOP_K_SUMMARY) (Some ''FEW'')
     = (Inr ''sections'',
        [DirectAnswer ''q'', CheckAnswer ''q'' ''draft'', SectionRetrieval ''q'' TOP_K_SUMMARY 5])
   \<and> get_answer example_methods [] ''q'' 5 True (Some TOP_K_SUMMARY) (Some ''FEW'')
     \<noteq> (Inr ''sections'',
        [DirectAnswer ''q'', CheckAnswer ''q'' ''draft'', SectionRetrieval ''q'' TOP_K_RAW 5])"
  by (simp add: get_answer_def classification_def example_methods_def few_mode_def)

end
